theory Spec2Isabelle
  imports Complex_Main "HOL-Library.Multiset" "HOL-Library.Product_Lexorder"
begin

section \<open>Data model of the OCR service\<close>

text \<open>
  A vertex of a bounding polygon. Both coordinates are pixel positions delivered by the
  vision provider (integers); either may be missing from the object.
\<close>

record vertex =
  vertex_x :: "int option"
  vertex_y :: "int option"

text \<open>\<open>boundingBox\<close> objects carry a \<open>vertices\<close> array, which may itself be missing.\<close>

record bounding_poly =
  vertices :: "vertex list option"

text \<open>
  One element of \<open>textDetails\<close>: the object \<open>{ text, confidence, boundingBox }\<close>
  (the field \<open>text\<close> is \<open>ann_text\<close> here).
  \<open>confidence\<close> and \<open>boundingBox\<close> may be \<open>undefined\<close>.
\<close>

record annotation =
  ann_text :: string
  confidence :: "rat option"
  boundingBox :: "bounding_poly option"

record box =
  minX :: int
  maxX :: int
  minY :: int
  maxY :: int

text \<open>The accumulator object \<open>currentLine\<close> that the grouping loop builds and mutates.\<close>

record line =
  lineNumber :: nat
  averageY :: int
  words :: "annotation list"
  line_text :: string
  line_boundingBox :: box

record position =
  pos_x :: int
  pos_y :: int

text \<open>The objects of the array that \<open>organizeTextByLines\<close> returns.\<close>

record out_word =
  word_text :: string
  word_confidence :: "rat option"
  word_position :: position

record out_line =
  out_lineNumber :: nat
  out_text :: string
  wordCount :: nat
  out_words :: "out_word list"
  out_boundingBox :: box

section \<open>Reading coordinates\<close>

text \<open>
  \<open>v || d\<close> on an optional number: \<open>undefined\<close> and \<open>0\<close> are falsy, every other
  number is truthy.
\<close>

definition orElse :: "int option \<Rightarrow> int \<Rightarrow> int" where
  "orElse v d = (case v of None \<Rightarrow> d | Some n \<Rightarrow> if n = 0 then d else n)"

text \<open>\<open>a.boundingBox?.vertices?.[i]\<close>: \<open>undefined\<close> as soon as one link is missing.\<close>

definition vertexAt :: "annotation \<Rightarrow> nat \<Rightarrow> vertex option" where
  "vertexAt a i =
     (case boundingBox a of
        None \<Rightarrow> None
      | Some b \<Rightarrow>
          (case vertices b of
             None \<Rightarrow> None
           | Some vs \<Rightarrow> if i < length vs then Some (vs ! i) else None))"

definition coordX :: "annotation \<Rightarrow> nat \<Rightarrow> int option" where
  "coordX a i = (case vertexAt a i of None \<Rightarrow> None | Some v \<Rightarrow> vertex_x v)"

definition coordY :: "annotation \<Rightarrow> nat \<Rightarrow> int option" where
  "coordY a i = (case vertexAt a i of None \<Rightarrow> None | Some v \<Rightarrow> vertex_y v)"

text \<open>\<open>a.boundingBox?.vertices?.[0]?.y || 0\<close> and the same for \<open>x\<close>.\<close>

definition topY :: "annotation \<Rightarrow> int" where
  "topY a = orElse (coordY a 0) 0"

definition topX :: "annotation \<Rightarrow> int" where
  "topX a = orElse (coordX a 0) 0"

section \<open>organizeTextByLines\<close>

definition lineThreshold :: int where
  "lineThreshold = 20"

text \<open>
  \<open>textDetails.slice().sort((a, b) => aY - bY)\<close>: a sort of a copy, ascending in the
  top-left y. \<open>Array.prototype.sort\<close> is stable, and so is \<open>sort_key\<close>: words with the
  same key keep their order.
\<close>

definition sortedTexts :: "annotation list \<Rightarrow> annotation list" where
  "sortedTexts textDetails = sort_key topY textDetails"

text \<open>The object literal of the "new line" branch; \<open>n\<close> is \<open>lines.length\<close>.\<close>

definition newLine :: "nat \<Rightarrow> annotation \<Rightarrow> line" where
  "newLine n t =
     \<lparr> lineNumber = n + 1,
       averageY = topY t,
       words = [t],
       line_text = ann_text t,
       line_boundingBox =
         \<lparr> minX = topX t, maxX = topX t, minY = topY t, maxY = topY t \<rparr> \<rparr>"

text \<open>The "add to the current line" branch: the mutations of \<open>currentLine\<close>.\<close>

definition addWord :: "line \<Rightarrow> annotation \<Rightarrow> line" where
  "addWord l t =
     (let textMaxX = orElse (coordX t 1) (topX t);
          textMaxY = orElse (coordY t 2) (topY t);
          b = line_boundingBox l
      in l \<lparr> words := words l @ [t],
             line_text := line_text l @ '' '' @ ann_text t,
             line_boundingBox :=
               \<lparr> minX = min (minX b) (topX t),
                 maxX = max (maxX b) textMaxX,
                 minY = min (minY b) (topY t),
                 maxY = max (maxY b) textMaxY \<rparr> \<rparr>)"

text \<open>
  One iteration of the \<open>for\<close> loop. \<open>currentLine\<close> is pushed onto \<open>lines\<close> when it is
  created and \<open>lines\<close> only grows, so \<open>currentLine\<close> is always the last element of
  \<open>lines\<close>: it is \<open>null\<close> exactly when \<open>lines\<close> is empty, and a mutation of it is an
  update of the last element.
\<close>

definition groupStep :: "line list \<Rightarrow> annotation \<Rightarrow> line list" where
  "groupStep lines t =
     (if lines = [] \<or> \<bar>topY t - averageY (last lines)\<bar> > lineThreshold
      then lines @ [newLine (length lines) t]
      else butlast lines @ [addWord (last lines) t])"

definition groupLoop :: "annotation list \<Rightarrow> line list" where
  "groupLoop ts = foldl groupStep [] ts"

text \<open>\<open>Array.prototype.join(' ')\<close> on strings.\<close>

fun joinSpace :: "string list \<Rightarrow> string" where
  "joinSpace [] = []"
| "joinSpace [s] = s"
| "joinSpace (s # t # ts) = s @ '' '' @ joinSpace (t # ts)"

text \<open>The body of \<open>lines.forEach\<close>: a stable sort of the words by x, then the text.\<close>

definition sortLine :: "line \<Rightarrow> line" where
  "sortLine l =
     (let ws = sort_key topX (words l)
      in l \<lparr> words := ws, line_text := joinSpace (map ann_text ws) \<rparr>)"

definition toOutWord :: "annotation \<Rightarrow> out_word" where
  "toOutWord w =
     \<lparr> word_text = ann_text w,
       word_confidence = confidence w,
       word_position = \<lparr> pos_x = topX w, pos_y = topY w \<rparr> \<rparr>"

definition toOutLine :: "line \<Rightarrow> out_line" where
  "toOutLine l =
     \<lparr> out_lineNumber = lineNumber l,
       out_text = line_text l,
       wordCount = length (words l),
       out_words = map toOutWord (words l),
       out_boundingBox = line_boundingBox l \<rparr>"

text \<open>The array \<open>lines\<close> as it stands after the \<open>forEach\<close>, for a non-empty argument.\<close>

definition groupedLines :: "annotation list \<Rightarrow> line list" where
  "groupedLines tds = map sortLine (groupLoop (sortedTexts tds))"

text \<open>
  The function itself. The argument is \<open>None\<close> for \<open>null\<close>/\<open>undefined\<close> and a list of
  annotation objects otherwise.
\<close>

definition organizeTextByLines :: "annotation list option \<Rightarrow> out_line list" where
  "organizeTextByLines textDetails =
     (case textDetails of
        None \<Rightarrow> []
      | Some tds \<Rightarrow>
          if length tds = 0 then []
          else map toOutLine (groupedLines tds))"

section \<open>detectText\<close>

text \<open>
  What the vision client delivers: \<open>result.textAnnotations\<close>, an array of objects with
  \<open>description\<close>, \<open>score\<close> and \<open>boundingPoly\<close>, or nothing. A rejected call carries an
  error with \<open>code\<close> and \<open>message\<close>.
\<close>

record vision_annotation =
  description :: string
  score :: "rat option"
  boundingPoly :: "bounding_poly option"

record vision_result =
  textAnnotations :: "vision_annotation list option"

record provider_error =
  error_code :: "int option"
  error_message :: string

text \<open>The two variables of \<open>process.env\<close> that \<open>detectText\<close> reads.\<close>

record environment =
  GOOGLE_CLOUD_API_KEY :: "string option"
  GOOGLE_APPLICATION_CREDENTIALS :: "string option"

text \<open>
  The result objects. The keys \<open>wordCount\<close>, \<open>lines\<close>, \<open>metadata\<close> and \<open>error\<close> are
  present in some results and absent from others; an absent key is \<open>None\<close>.
\<close>

record result_metadata =
  totalWords :: nat
  totalLines :: "nat option"
  timestamp :: string
  mode :: "string option"

record ocr_result =
  success :: bool
  message :: string
  result_text :: string
  result_wordCount :: "nat option"
  lines :: "out_line list option"
  details :: "annotation list"
  metadata :: "result_metadata option"
  error :: "provider_error option"

text \<open>
  Strings are byte strings (UTF-8); the literals of the source that are not ASCII are
  given by their bytes.
\<close>

text \<open>The bytes of the message of the mock result.\<close>

definition mockMessage :: string where
  "mockMessage =
     [CHR 0xE0, CHR 0xB8, CHR 0xAD, CHR 0xE0, CHR 0xB9, CHR 0x88, CHR 0xE0, CHR 0xB8,
      CHR 0xB2, CHR 0xE0, CHR 0xB8, CHR 0x99, CHR 0xE0, CHR 0xB8, CHR 0x82, CHR 0xE0,
      CHR 0xB9, CHR 0x89, CHR 0xE0, CHR 0xB8, CHR 0xAD, CHR 0xE0, CHR 0xB8, CHR 0x84,
      CHR 0xE0, CHR 0xB8, CHR 0xA7, CHR 0xE0, CHR 0xB8, CHR 0xB2, CHR 0xE0, CHR 0xB8,
      CHR 0xA1, CHR 0xE0, CHR 0xB8, CHR 0x88, CHR 0xE0, CHR 0xB8, CHR 0xB2, CHR 0xE0,
      CHR 0xB8, CHR 0x81, CHR 0xE0, CHR 0xB8, CHR 0xA3, CHR 0xE0, CHR 0xB8, CHR 0xB9,
      CHR 0xE0, CHR 0xB8, CHR 0x9B, CHR 0xE0, CHR 0xB8, CHR 0xA0, CHR 0xE0, CHR 0xB8,
      CHR 0xB2, CHR 0xE0, CHR 0xB8, CHR 0x9E, CHR 0xE0, CHR 0xB8, CHR 0xAA, CHR 0xE0,
      CHR 0xB8, CHR 0xB3, CHR 0xE0, CHR 0xB9, CHR 0x80, CHR 0xE0, CHR 0xB8, CHR 0xA3,
      CHR 0xE0, CHR 0xB9, CHR 0x87, CHR 0xE0, CHR 0xB8, CHR 0x88]
     @ '' (Mock Mode)''"

text \<open>The bytes of the text of the mock result.\<close>

definition mockText :: string where
  "mockText =
     ''Mock OCR Result: This is a sample text detected from image. ''
     @ [CHR 0xE0, CHR 0xB9, CHR 0x80, CHR 0xE0, CHR 0xB8, CHR 0x99, CHR 0xE0, CHR 0xB8,
        CHR 0xB7, CHR 0xE0, CHR 0xB9, CHR 0x88, CHR 0xE0, CHR 0xB8, CHR 0xAD, CHR 0xE0,
        CHR 0xB8, CHR 0x87, CHR 0xE0, CHR 0xB8, CHR 0x88, CHR 0xE0, CHR 0xB8, CHR 0xB2,
        CHR 0xE0, CHR 0xB8, CHR 0x81, CHR 0xE0, CHR 0xB8, CHR 0xA2, CHR 0xE0, CHR 0xB8,
        CHR 0xB1, CHR 0xE0, CHR 0xB8, CHR 0x87, CHR 0xE0, CHR 0xB9, CHR 0x84, CHR 0xE0,
        CHR 0xB8, CHR 0xA1, CHR 0xE0, CHR 0xB9, CHR 0x88, CHR 0xE0, CHR 0xB9, CHR 0x84,
        CHR 0xE0, CHR 0xB8, CHR 0x94, CHR 0xE0, CHR 0xB9, CHR 0x89, CHR 0xE0, CHR 0xB8,
        CHR 0x95, CHR 0xE0, CHR 0xB8, CHR 0xB1, CHR 0xE0, CHR 0xB9, CHR 0x89, CHR 0xE0,
        CHR 0xB8, CHR 0x87, CHR 0xE0, CHR 0xB8, CHR 0x84, CHR 0xE0, CHR 0xB9, CHR 0x88,
        CHR 0xE0, CHR 0xB8, CHR 0xB2]
     @ '' Google Cloud Vision API''"

text \<open>The bytes of the message of the result for an image without text.\<close>

definition notFoundMessage :: string where
  "notFoundMessage =
     [CHR 0xE0, CHR 0xB9, CHR 0x84, CHR 0xE0, CHR 0xB8, CHR 0xA1, CHR 0xE0, CHR 0xB9,
      CHR 0x88, CHR 0xE0, CHR 0xB8, CHR 0x9E, CHR 0xE0, CHR 0xB8, CHR 0x9A, CHR 0xE0,
      CHR 0xB8, CHR 0x82, CHR 0xE0, CHR 0xB9, CHR 0x89, CHR 0xE0, CHR 0xB8, CHR 0xAD,
      CHR 0xE0, CHR 0xB8, CHR 0x84, CHR 0xE0, CHR 0xB8, CHR 0xA7, CHR 0xE0, CHR 0xB8,
      CHR 0xB2, CHR 0xE0, CHR 0xB8, CHR 0xA1, CHR 0xE0, CHR 0xB9, CHR 0x83, CHR 0xE0,
      CHR 0xB8, CHR 0x99, CHR 0xE0, CHR 0xB8, CHR 0xA3, CHR 0xE0, CHR 0xB8, CHR 0xB9,
      CHR 0xE0, CHR 0xB8, CHR 0x9B, CHR 0xE0, CHR 0xB8, CHR 0xA0, CHR 0xE0, CHR 0xB8,
      CHR 0xB2, CHR 0xE0, CHR 0xB8, CHR 0x9E]"

text \<open>The bytes of the message of a successful result.\<close>

definition successMessage :: string where
  "successMessage =
     [CHR 0xE0, CHR 0xB8, CHR 0xAD, CHR 0xE0, CHR 0xB9, CHR 0x88, CHR 0xE0, CHR 0xB8,
      CHR 0xB2, CHR 0xE0, CHR 0xB8, CHR 0x99, CHR 0xE0, CHR 0xB8, CHR 0x82, CHR 0xE0,
      CHR 0xB9, CHR 0x89, CHR 0xE0, CHR 0xB8, CHR 0xAD, CHR 0xE0, CHR 0xB8, CHR 0x84,
      CHR 0xE0, CHR 0xB8, CHR 0xA7, CHR 0xE0, CHR 0xB8, CHR 0xB2, CHR 0xE0, CHR 0xB8,
      CHR 0xA1, CHR 0xE0, CHR 0xB8, CHR 0x88, CHR 0xE0, CHR 0xB8, CHR 0xB2, CHR 0xE0,
      CHR 0xB8, CHR 0x81, CHR 0xE0, CHR 0xB8, CHR 0xA3, CHR 0xE0, CHR 0xB8, CHR 0xB9,
      CHR 0xE0, CHR 0xB8, CHR 0x9B, CHR 0xE0, CHR 0xB8, CHR 0xA0, CHR 0xE0, CHR 0xB8,
      CHR 0xB2, CHR 0xE0, CHR 0xB8, CHR 0x9E, CHR 0xE0, CHR 0xB8, CHR 0xAA, CHR 0xE0,
      CHR 0xB8, CHR 0xB3, CHR 0xE0, CHR 0xB9, CHR 0x80, CHR 0xE0, CHR 0xB8, CHR 0xA3,
      CHR 0xE0, CHR 0xB9, CHR 0x87, CHR 0xE0, CHR 0xB8, CHR 0x88]"

text \<open>The bytes of the text before the error message in the result of the catch block.\<close>

definition errorMessagePrefix :: string where
  "errorMessagePrefix =
     [CHR 0xE0, CHR 0xB9, CHR 0x80, CHR 0xE0, CHR 0xB8, CHR 0x81, CHR 0xE0, CHR 0xB8,
      CHR 0xB4, CHR 0xE0, CHR 0xB8, CHR 0x94, CHR 0xE0, CHR 0xB8, CHR 0x82, CHR 0xE0,
      CHR 0xB9, CHR 0x89, CHR 0xE0, CHR 0xB8, CHR 0xAD, CHR 0xE0, CHR 0xB8, CHR 0x9C,
      CHR 0xE0, CHR 0xB8, CHR 0xB4, CHR 0xE0, CHR 0xB8, CHR 0x94, CHR 0xE0, CHR 0xB8,
      CHR 0x9E, CHR 0xE0, CHR 0xB8, CHR 0xA5, CHR 0xE0, CHR 0xB8, CHR 0xB2, CHR 0xE0,
      CHR 0xB8, CHR 0x94]
     @ '': ''"

text \<open>\<open>!process.env.X\<close>: the variable is unset or empty.\<close>

definition unset :: "string option \<Rightarrow> bool" where
  "unset v = (case v of None \<Rightarrow> True | Some s \<Rightarrow> s = [])"

text \<open>\<open>text.score || 0\<close>.\<close>

definition scoreOrZero :: "rat option \<Rightarrow> rat" where
  "scoreOrZero s = (case s of None \<Rightarrow> 0 | Some c \<Rightarrow> if c = 0 then 0 else c)"

text \<open>
  The white space of \<open>String.prototype.trim\<close> and of \<open>\s\<close>: the code points U+0009 to
  U+000D, U+0020, U+00A0, U+1680, U+2000 to U+200A, U+2028, U+2029, U+202F, U+205F,
  U+3000 and U+FEFF, each by its bytes.
\<close>

definition whiteSpaces :: "string list" where
  "whiteSpaces =
     [[CHR 0x09], [CHR 0x0A], [CHR 0x0B], [CHR 0x0C], [CHR 0x0D], [CHR 0x20],
      [CHR 0xC2, CHR 0xA0],
      [CHR 0xE1, CHR 0x9A, CHR 0x80],
      [CHR 0xE2, CHR 0x80, CHR 0x80], [CHR 0xE2, CHR 0x80, CHR 0x81],
      [CHR 0xE2, CHR 0x80, CHR 0x82], [CHR 0xE2, CHR 0x80, CHR 0x83],
      [CHR 0xE2, CHR 0x80, CHR 0x84], [CHR 0xE2, CHR 0x80, CHR 0x85],
      [CHR 0xE2, CHR 0x80, CHR 0x86], [CHR 0xE2, CHR 0x80, CHR 0x87],
      [CHR 0xE2, CHR 0x80, CHR 0x88], [CHR 0xE2, CHR 0x80, CHR 0x89],
      [CHR 0xE2, CHR 0x80, CHR 0x8A],
      [CHR 0xE2, CHR 0x80, CHR 0xA8], [CHR 0xE2, CHR 0x80, CHR 0xA9],
      [CHR 0xE2, CHR 0x80, CHR 0xAF],
      [CHR 0xE2, CHR 0x81, CHR 0x9F],
      [CHR 0xE3, CHR 0x80, CHR 0x80],
      [CHR 0xEF, CHR 0xBB, CHR 0xBF]]"

text \<open>The number of bytes of the white-space character that \<open>s\<close> starts with, 0 for none.\<close>

definition spaceAt :: "string \<Rightarrow> nat" where
  "spaceAt s =
     (case filter (\<lambda>w. take (length w) s = w) whiteSpaces of
        [] \<Rightarrow> 0
      | w # _ \<Rightarrow> length w)"

text \<open>
  For every byte of a string, whether it belongs to a white-space character; \<open>k\<close> is the
  number of bytes still to come of a white-space character that has begun.
\<close>

fun spaceMarks :: "nat \<Rightarrow> string \<Rightarrow> bool list" where
  "spaceMarks k [] = []"
| "spaceMarks k (c # cs) =
     (if 0 < k then True # spaceMarks (k - 1) cs
      else if 0 < spaceAt (c # cs) then True # spaceMarks (spaceAt (c # cs) - 1) cs
      else False # spaceMarks 0 cs)"

text \<open>\<open>String.prototype.trim\<close>: the white space at both ends is dropped.\<close>

definition trim :: "string \<Rightarrow> string" where
  "trim s = map fst (rev (dropWhile snd (rev (dropWhile snd (zip s (spaceMarks 0 s))))))"

text \<open>
  The number of pieces of \<open>split(/\s+/)\<close>: one more than the number of maximal runs of
  white space.
\<close>

fun spaceRuns :: "bool list \<Rightarrow> nat" where
  "spaceRuns [] = 0"
| "spaceRuns [m] = (if m then 1 else 0)"
| "spaceRuns (m # n # ms) = (if m \<and> \<not> n then 1 else 0) + spaceRuns (n # ms)"

definition splitLength :: "string \<Rightarrow> nat" where
  "splitLength s = spaceRuns (spaceMarks 0 s) + 1"

text \<open>The object that the mock branch returns; \<open>now\<close> is \<open>new Date().toISOString()\<close>.\<close>

definition mockResult :: "string \<Rightarrow> ocr_result" where
  "mockResult now =
     \<lparr> success = True,
       message = mockMessage,
       result_text = mockText,
       result_wordCount = Some 20,
       lines = None,
       details =
         [\<lparr> ann_text = ''Mock'', confidence = Some (95 / 100),
            boundingBox = Some \<lparr> vertices = Some [] \<rparr> \<rparr>,
          \<lparr> ann_text = ''OCR'', confidence = Some (98 / 100),
            boundingBox = Some \<lparr> vertices = Some [] \<rparr> \<rparr>,
          \<lparr> ann_text = ''Result'', confidence = Some (92 / 100),
            boundingBox = Some \<lparr> vertices = Some [] \<rparr> \<rparr>],
       metadata = Some \<lparr> totalWords = 3, totalLines = None, timestamp = now,
                         mode = Some ''mock'' \<rparr>,
       error = None \<rparr>"

text \<open>The object returned when \<open>detections\<close> is missing or empty.\<close>

definition noTextResult :: ocr_result where
  "noTextResult =
     \<lparr> success = False,
       message = notFoundMessage,
       result_text = [],
       result_wordCount = None,
       lines = None,
       details = [],
       metadata = None,
       error = None \<rparr>"

text \<open>The object returned by the \<open>catch\<close> block.\<close>

definition errorResult :: "provider_error \<Rightarrow> ocr_result" where
  "errorResult e =
     \<lparr> success = False,
       message = errorMessagePrefix @ error_message e,
       result_text = [],
       result_wordCount = None,
       lines = None,
       details = [],
       metadata = None,
       error = Some \<lparr> error_code = error_code e, error_message = error_message e \<rparr> \<rparr>"

text \<open>The callback of \<open>detections.slice(1).map\<close>.\<close>

definition toTextDetail :: "vision_annotation \<Rightarrow> annotation" where
  "toTextDetail t =
     \<lparr> ann_text = description t,
       confidence = Some (scoreOrZero (score t)),
       boundingBox = boundingPoly t \<rparr>"

text \<open>
  \<open>detectText\<close>. The image is only handed to the vision client, so the model takes the
  outcome of \<open>await client.textDetection(imageInput)\<close> instead: \<open>Inl\<close> a rejection, which
  the \<open>catch\<close> block turns into a result, \<open>Inr\<close> the first element of the resolved array.
\<close>

definition detectText :: "environment \<Rightarrow> provider_error + vision_result \<Rightarrow> string \<Rightarrow> ocr_result" where
  "detectText env response now =
     (if unset (GOOGLE_CLOUD_API_KEY env) \<and> unset (GOOGLE_APPLICATION_CREDENTIALS env)
      then mockResult now
      else
        (case response of
           Inl e \<Rightarrow> errorResult e
         | Inr result \<Rightarrow>
             (case textAnnotations result of
                None \<Rightarrow> noTextResult
              | Some detections \<Rightarrow>
                  if length detections = 0 then noTextResult
                  else
                    (let fullText = (if description (hd detections) = [] then []
                                     else description (hd detections));
                         textDetails = map toTextDetail (drop 1 detections);
                         organizedByLines = organizeTextByLines (Some textDetails)
                     in \<lparr> success = True,
                          message = successMessage,
                          result_text = trim fullText,
                          result_wordCount = Some (splitLength (trim fullText)),
                          lines = Some organizedByLines,
                          details = textDetails,
                          metadata = Some \<lparr> totalWords = length textDetails,
                                            totalLines = Some (length organizedByLines),
                                            timestamp = now, mode = None \<rparr>,
                          error = None \<rparr>))))"

section \<open>organizeTextByLines on a store\<close>

text \<open>
  The arrays and the word objects that \<open>organizeTextByLines\<close> touches live in a store:
  an array is a reference to a list of references to word objects, so that a write
  through one reference is seen through every other reference to the same array. Arrays
  are allocated at \<open>nextArray\<close>, word objects at \<open>nextWord\<close>.
\<close>

type_synonym ref = nat

record store =
  wordAt :: "ref \<Rightarrow> annotation"
  arrayAt :: "ref \<Rightarrow> ref list"
  nextArray :: ref
  nextWord :: ref

text \<open>An array literal or the result of \<open>slice\<close> or \<open>map\<close>: a new array.\<close>

definition newArray :: "store \<Rightarrow> ref list \<Rightarrow> store \<times> ref" where
  "newArray st rs =
     (st \<lparr> arrayAt := (arrayAt st) (nextArray st := rs), nextArray := Suc (nextArray st) \<rparr>,
      nextArray st)"

text \<open>\<open>a.slice()\<close>: a new array with the elements of \<open>a\<close>.\<close>

definition sliceArray :: "store \<Rightarrow> ref \<Rightarrow> store \<times> ref" where
  "sliceArray st a = newArray st (arrayAt st a)"

text \<open>
  \<open>a.sort((p, q) => key(p) - key(q))\<close>: the array \<open>a\<close> itself is sorted, stably, by the key
  read from the word objects.
\<close>

definition sortArray :: "(annotation \<Rightarrow> int) \<Rightarrow> store \<Rightarrow> ref \<Rightarrow> store" where
  "sortArray key st a =
     st \<lparr> arrayAt := (arrayAt st) (a := sort_key (\<lambda>r. key (wordAt st r)) (arrayAt st a)) \<rparr>"

text \<open>\<open>a.push(r)\<close>.\<close>

definition pushArray :: "store \<Rightarrow> ref \<Rightarrow> ref \<Rightarrow> store" where
  "pushArray st a r = st \<lparr> arrayAt := (arrayAt st) (a := arrayAt st a @ [r]) \<rparr>"

text \<open>
  The line objects are created inside the call and reached only through \<open>lines\<close> and
  \<open>currentLine\<close>; they are kept as values, with \<open>words\<close> a reference to an array in the
  store.
\<close>

record line_obj =
  lo_lineNumber :: nat
  lo_averageY :: int
  lo_words :: ref
  lo_text :: string
  lo_boundingBox :: box

text \<open>One iteration of the \<open>for\<close> loop; \<open>r\<close> is the reference \<open>text\<close>.\<close>

definition groupStepStore :: "store \<times> line_obj list \<Rightarrow> ref \<Rightarrow> store \<times> line_obj list" where
  "groupStepStore s r =
     (let st = fst s; lines = snd s;
          textY = topY (wordAt st r); textX = topX (wordAt st r)
      in if lines = [] \<or> \<bar>textY - lo_averageY (last lines)\<bar> > lineThreshold
         then
           (let na = newArray st [r]
            in (fst na,
                lines @
                [\<lparr> lo_lineNumber = length lines + 1,
                   lo_averageY = textY,
                   lo_words = snd na,
                   lo_text = ann_text (wordAt st r),
                   lo_boundingBox =
                     \<lparr> minX = textX, maxX = textX, minY = textY, maxY = textY \<rparr> \<rparr>]))
         else
           (let currentLine = last lines;
                st' = pushArray st (lo_words currentLine) r;
                textMaxX = orElse (coordX (wordAt st r) 1) textX;
                textMaxY = orElse (coordY (wordAt st r) 2) textY;
                b = lo_boundingBox currentLine
            in (st',
                butlast lines @
                [currentLine
                   \<lparr> lo_text := lo_text currentLine @ '' '' @ ann_text (wordAt st r),
                     lo_boundingBox :=
                       \<lparr> minX = min (minX b) textX,
                         maxX = max (maxX b) textMaxX,
                         minY = min (minY b) textY,
                         maxY = max (maxY b) textMaxY \<rparr> \<rparr>])))"

text \<open>\<open>lines.forEach\<close>: the array of words of each line is sorted in place, then the text is rebuilt.\<close>

fun sortLinesStore :: "store \<Rightarrow> line_obj list \<Rightarrow> store \<times> line_obj list" where
  "sortLinesStore st [] = (st, [])"
| "sortLinesStore st (l # ls) =
     (let st1 = sortArray topX st (lo_words l);
          l1 = l \<lparr> lo_text :=
                     joinSpace (map (\<lambda>r. ann_text (wordAt st1 r)) (arrayAt st1 (lo_words l))) \<rparr>;
          rest = sortLinesStore st1 ls
      in (fst rest, l1 # snd rest))"

text \<open>The callback of the final \<open>lines.map\<close>.\<close>

definition toOutLineStore :: "store \<Rightarrow> line_obj \<Rightarrow> out_line" where
  "toOutLineStore st l =
     \<lparr> out_lineNumber = lo_lineNumber l,
       out_text = lo_text l,
       wordCount = length (arrayAt st (lo_words l)),
       out_words = map (\<lambda>r. toOutWord (wordAt st r)) (arrayAt st (lo_words l)),
       out_boundingBox = lo_boundingBox l \<rparr>"

text \<open>
  The function on the store: the argument is a reference to the array \<open>textDetails\<close> (or
  \<open>None\<close> for \<open>null\<close>), the result is the store after the call and the returned lines.
  The \<open>for\<close> loop runs over the elements that \<open>sortedTexts\<close> has when the loop starts.
\<close>

definition organizeTextByLinesStore :: "store \<Rightarrow> ref option \<Rightarrow> store \<times> out_line list" where
  "organizeTextByLinesStore st textDetails =
     (case textDetails of
        None \<Rightarrow> (st, [])
      | Some a \<Rightarrow>
          if length (arrayAt st a) = 0 then (st, [])
          else
            (let sl = sliceArray st a;
                 sortedTexts = snd sl;
                 st2 = sortArray topY (fst sl) sortedTexts;
                 grouped = foldl groupStepStore (st2, []) (arrayAt st2 sortedTexts);
                 sorted = sortLinesStore (fst grouped) (snd grouped)
             in (fst sorted, map (toOutLineStore (fst sorted)) (snd sorted))))"

text \<open>
  \<open>detections.slice(1).map(text => ({ ... }))\<close> creates one new word object for each
  element; \<open>newWords\<close> stores the objects and gives their references, in order.
\<close>

definition newWords :: "store \<Rightarrow> annotation list \<Rightarrow> store \<times> ref list" where
  "newWords st ws =
     (st \<lparr> wordAt :=
             (\<lambda>r. if nextWord st \<le> r \<and> r < nextWord st + length ws
                  then ws ! (r - nextWord st) else wordAt st r),
           nextWord := nextWord st + length ws \<rparr>,
      [nextWord st ..< nextWord st + length ws])"

text \<open>
  \<open>detectText\<close> on the store: \<open>textDetails\<close> is a reference to a new array of new word
  objects, \<open>organizeTextByLines\<close> is called with this reference, and the \<open>details\<close> of the
  result are the same array, read when the result is returned.
\<close>

definition detectTextStore ::
  "store \<Rightarrow> environment \<Rightarrow> provider_error + vision_result \<Rightarrow> string \<Rightarrow> ocr_result" where
  "detectTextStore st env response now =
     (if unset (GOOGLE_CLOUD_API_KEY env) \<and> unset (GOOGLE_APPLICATION_CREDENTIALS env)
      then mockResult now
      else
        (case response of
           Inl e \<Rightarrow> errorResult e
         | Inr result \<Rightarrow>
             (case textAnnotations result of
                None \<Rightarrow> noTextResult
              | Some detections \<Rightarrow>
                  if length detections = 0 then noTextResult
                  else
                    (let fullText = (if description (hd detections) = [] then []
                                     else description (hd detections));
                         nw = newWords st (map toTextDetail (drop 1 detections));
                         na = newArray (fst nw) (snd nw);
                         textDetails = snd na;
                         org = organizeTextByLinesStore (fst na) (Some textDetails);
                         organizedByLines = snd org;
                         st' = fst org
                     in \<lparr> success = True,
                          message = successMessage,
                          result_text = trim fullText,
                          result_wordCount = Some (splitLength (trim fullText)),
                          lines = Some organizedByLines,
                          details = map (wordAt st') (arrayAt st' textDetails),
                          metadata = Some \<lparr> totalWords = length (arrayAt st' textDetails),
                                            totalLines = Some (length organizedByLines),
                                            timestamp = now, mode = None \<rparr>,
                          error = None \<rparr>))))"

section \<open>The grouping rule in the words of the specification\<close>

text \<open>
  The walk of section 4.2: the first word opens a line anchored at its top-left y; a later
  word joins the current line when its top-left y is within 20 of the anchor, and
  otherwise closes the line and opens the next one, anchored at its own y. A line is
  the pair of its anchor and its words in the order of the walk.
\<close>

fun walkFrom :: "int \<Rightarrow> annotation list \<Rightarrow> annotation list \<Rightarrow> (int \<times> annotation list) list" where
  "walkFrom anchor current [] = [(anchor, current)]"
| "walkFrom anchor current (w # ws) =
     (if \<bar>topY w - anchor\<bar> \<le> 20
      then walkFrom anchor (current @ [w]) ws
      else (anchor, current) # walkFrom (topY w) [w] ws)"

fun specLines :: "annotation list \<Rightarrow> (int \<times> annotation list) list" where
  "specLines [] = []"
| "specLines (w # ws) = walkFrom (topY w) [w] ws"

definition anchorWords :: "line \<Rightarrow> int \<times> annotation list" where
  "anchorWords l = (averageY l, words l)"

text \<open>
  A line of the walk is anchored: its anchor is the y of its first word, and every word
  is within 20 of it.
\<close>

definition anchored :: "int \<times> annotation list \<Rightarrow> bool" where
  "anchored p = (snd p \<noteq> [] \<and> fst p = topY (hd (snd p)) \<and>
                 list_all (\<lambda>w. \<bar>topY w - fst p\<bar> \<le> 20) (snd p))"

text \<open>A word is near an anchor when its top-left y is within 20 of it.\<close>

definition near :: "int \<Rightarrow> annotation \<Rightarrow> bool" where
  "near anchor w = (\<bar>topY w - anchor\<bar> \<le> 20)"

section \<open>The bounding box and the defaults in the words of the specification\<close>

text \<open>
  The right and bottom extent of a word: the coordinates of the corner opposite to the
  top-left one where they are available, the top-left ones otherwise. The covering box of
  a list of words is the coordinate-wise minimum and maximum over these corners.
\<close>

definition wordRight :: "annotation \<Rightarrow> int" where
  "wordRight w = (case coordX w 2 of None \<Rightarrow> topX w | Some n \<Rightarrow> n)"

definition wordBottom :: "annotation \<Rightarrow> int" where
  "wordBottom w = (case coordY w 2 of None \<Rightarrow> topY w | Some n \<Rightarrow> n)"

definition coveringBox :: "annotation list \<Rightarrow> box" where
  "coveringBox ws =
     \<lparr> minX = Min (set (map topX ws @ map wordRight ws)),
       maxX = Max (set (map topX ws @ map wordRight ws)),
       minY = Min (set (map topY ws @ map wordBottom ws)),
       maxY = Max (set (map topY ws @ map wordBottom ws)) \<rparr>"

text \<open>
  A missing coordinate read as 0: \<open>fillCoordinates\<close> gives a word all four corners, with 0
  for every coordinate that is missing; \<open>fillConfidence\<close> gives it the confidence 0 when it
  has none.
\<close>

definition fillVertex :: "vertex \<Rightarrow> vertex" where
  "fillVertex v =
     \<lparr> vertex_x = Some (case vertex_x v of None \<Rightarrow> 0 | Some n \<Rightarrow> n),
       vertex_y = Some (case vertex_y v of None \<Rightarrow> 0 | Some n \<Rightarrow> n) \<rparr>"

definition fillCoordinates :: "annotation \<Rightarrow> annotation" where
  "fillCoordinates a =
     a \<lparr> boundingBox := Some \<lparr> vertices = Some
           (map (\<lambda>i. case vertexAt a i of
                        None \<Rightarrow> \<lparr> vertex_x = Some 0, vertex_y = Some 0 \<rparr>
                      | Some v \<Rightarrow> fillVertex v) [0, 1, 2, 3]) \<rparr> \<rparr>"

definition fillConfidence :: "annotation \<Rightarrow> annotation" where
  "fillConfidence a = a \<lparr> confidence := Some (case confidence a of None \<Rightarrow> 0 | Some c \<Rightarrow> c) \<rparr>"

text \<open>
  The contents of a returned line: its number, its text, its word count and its words
  (everything but the bounding box).
\<close>

definition lineContents :: "out_line \<Rightarrow> nat \<times> string \<times> nat \<times> out_word list" where
  "lineContents l = (out_lineNumber l, out_text l, wordCount l, out_words l)"

text \<open>
  A word has its top-left corner at a given point; a returned word has its position
  there.
\<close>

definition cornerAt :: "int \<Rightarrow> int \<Rightarrow> annotation \<Rightarrow> bool" where
  "cornerAt px py w = (topX w = px \<and> topY w = py)"

definition positionAt :: "int \<Rightarrow> int \<Rightarrow> out_word \<Rightarrow> bool" where
  "positionAt px py w = (pos_x (word_position w) = px \<and> pos_y (word_position w) = py)"

section \<open>Notions for the proofs\<close>

text \<open>
  Two words agree in everything \<open>organizeTextByLines\<close> reads from a word; \<open>mapWords\<close>
  replaces the words of a line.
\<close>

definition sameReadings :: "annotation \<Rightarrow> annotation \<Rightarrow> bool" where
  "sameReadings a b =
     (ann_text a = ann_text b \<and> confidence a = confidence b \<and>
      topX a = topX b \<and> topY a = topY b \<and>
      orElse (coordX a 1) (topX a) = orElse (coordX b 1) (topX b) \<and>
      orElse (coordY a 2) (topY a) = orElse (coordY b 2) (topY b))"

definition mapWords :: "(annotation \<Rightarrow> annotation) \<Rightarrow> line \<Rightarrow> line" where
  "mapWords f l = l \<lparr> words := map f (words l) \<rparr>"

text \<open>The line that a line object stands for, with the words read from the store.\<close>

definition absLine :: "store \<Rightarrow> line_obj \<Rightarrow> line" where
  "absLine st l =
     \<lparr> lineNumber = lo_lineNumber l,
       averageY = lo_averageY l,
       words = map (wordAt st) (arrayAt st (lo_words l)),
       line_text = lo_text l,
       line_boundingBox = lo_boundingBox l \<rparr>"

text \<open>
  The arrays of the lines are allocated after the bound \<open>B\<close>, below \<open>nextArray\<close>, and no
  two lines share one.
\<close>

definition linesFresh :: "ref \<Rightarrow> store \<Rightarrow> line_obj list \<Rightarrow> bool" where
  "linesFresh B st ls =
     (B \<le> nextArray st \<and> distinct (map lo_words ls) \<and>
      list_all (\<lambda>l. B \<le> lo_words l \<and> lo_words l < nextArray st) ls)"

section \<open>Example inputs\<close>

text \<open>
  A word of which only the top-left corner is known, as in the examples of the
  specification, and a word with an axis-aligned box of four corners.
\<close>

definition topLeftWord :: "string \<Rightarrow> int \<Rightarrow> int \<Rightarrow> annotation" where
  "topLeftWord s px py =
     \<lparr> ann_text = s, confidence = Some 0,
       boundingBox = Some \<lparr> vertices = Some [\<lparr> vertex_x = Some px, vertex_y = Some py \<rparr>] \<rparr> \<rparr>"

definition boxWord :: "string \<Rightarrow> int \<Rightarrow> int \<Rightarrow> int \<Rightarrow> int \<Rightarrow> annotation" where
  "boxWord s px py qx qy =
     \<lparr> ann_text = s, confidence = Some 0,
       boundingBox = Some \<lparr> vertices = Some
         [\<lparr> vertex_x = Some px, vertex_y = Some py \<rparr>,
          \<lparr> vertex_x = Some qx, vertex_y = Some py \<rparr>,
          \<lparr> vertex_x = Some qx, vertex_y = Some qy \<rparr>,
          \<lparr> vertex_x = Some px, vertex_y = Some qy \<rparr>] \<rparr> \<rparr>"

text \<open>A word with half a corner: no confidence, one vertex, and no x in it.\<close>

definition halfWord :: annotation where
  "halfWord = \<lparr> ann_text = ''h'', confidence = None,
      boundingBox = Some \<lparr> vertices = Some [\<lparr> vertex_x = None, vertex_y = Some 7 \<rparr>] \<rparr> \<rparr>"

text \<open>A store with one array of two words, the lower word first.\<close>

definition exampleStore :: store where
  "exampleStore =
     \<lparr> wordAt = (\<lambda>r. if r = 0 then topLeftWord ''b'' 10 15 else topLeftWord ''a'' 20 0),
       arrayAt = (\<lambda>a. if a = 0 then [0, 1] else []),
       nextArray = 1,
       nextWord = 2 \<rparr>"

section \<open>The loop, one step at a time\<close>

lemma groupStep_Nil: "groupStep [] t = [newLine 0 t]"
  by (simp add: groupStep_def)

lemma groupStep_snoc:
  "groupStep (ls @ [l]) t =
     (if \<bar>topY t - averageY l\<bar> > lineThreshold
      then ls @ [l, newLine (Suc (length ls)) t]
      else ls @ [addWord l t])"
  by (simp add: groupStep_def)

lemma foldl_groupStep_walk:
  "map anchorWords (foldl groupStep (ls @ [l]) ts) =
     map anchorWords ls @ walkFrom (averageY l) (words l) ts"
proof (induction ts arbitrary: ls l)
  case Nil
  show ?case by (simp add: anchorWords_def)
next
  case (Cons t ts)
  show ?case
  proof (cases "\<bar>topY t - averageY l\<bar> > lineThreshold")
    case True
    have "foldl groupStep (ls @ [l]) (t # ts) =
          foldl groupStep ((ls @ [l]) @ [newLine (Suc (length ls)) t]) ts"
      using True by (simp add: groupStep_snoc)
    then show ?thesis
      using True Cons.IH [of "ls @ [l]" "newLine (Suc (length ls)) t"]
      by (simp add: lineThreshold_def anchorWords_def newLine_def)
  next
    case False
    have "foldl groupStep (ls @ [l]) (t # ts) = foldl groupStep (ls @ [addWord l t]) ts"
      using False by (simp add: groupStep_snoc)
    then show ?thesis
      using False Cons.IH [of ls "addWord l t"]
      by (simp add: lineThreshold_def anchorWords_def addWord_def Let_def)
  qed
qed

lemma groupLoop_specLines: "map anchorWords (groupLoop ts) = specLines ts"
proof (cases ts)
  case Nil
  then show ?thesis by (simp add: groupLoop_def)
next
  case (Cons t ts')
  have "map anchorWords (foldl groupStep ([] @ [newLine 0 t]) ts') =
        map anchorWords [] @ walkFrom (averageY (newLine 0 t)) (words (newLine 0 t)) ts'"
    by (rule foldl_groupStep_walk)
  then show ?thesis
    using Cons by (simp add: groupLoop_def groupStep_Nil newLine_def)
qed

lemma lineNumber_groupStep:
  assumes "map lineNumber ls = [1..<Suc (length ls)]"
  shows "map lineNumber (groupStep ls t) = [1..<Suc (length (groupStep ls t))]"
proof (cases "ls = [] \<or> \<bar>topY t - averageY (last ls)\<bar> > lineThreshold")
  case True
  then have "groupStep ls t = ls @ [newLine (length ls) t]"
    by (auto simp add: groupStep_def)
  then show ?thesis using assms by (simp add: newLine_def)
next
  case False
  then have ne: "ls \<noteq> []" and eq: "groupStep ls t = butlast ls @ [addWord (last ls) t]"
    by (auto simp add: groupStep_def)
  have "map lineNumber (butlast ls @ [addWord (last ls) t]) =
        map lineNumber (butlast ls @ [last ls])"
    by (simp add: addWord_def Let_def)
  also have "\<dots> = map lineNumber ls" using ne by simp
  finally show ?thesis using assms eq ne by (simp add: Suc_diff_Suc)
qed

lemma lineNumber_foldl:
  "map lineNumber ls = [1..<Suc (length ls)] \<Longrightarrow>
   map lineNumber (foldl groupStep ls ts) = [1..<Suc (length (foldl groupStep ls ts))]"
  by (induction ts arbitrary: ls) (simp_all add: lineNumber_groupStep del: upt_Suc)

lemma lineNumber_groupLoop:
  "map lineNumber (groupLoop ts) = [1..<Suc (length (groupLoop ts))]"
  by (simp add: groupLoop_def lineNumber_foldl del: upt_Suc)

lemma words_groupStep:
  "mset (concat (map words (groupStep ls t))) = mset (concat (map words ls)) + {#t#}"
proof (cases "ls = [] \<or> \<bar>topY t - averageY (last ls)\<bar> > lineThreshold")
  case True
  then have "groupStep ls t = ls @ [newLine (length ls) t]"
    by (auto simp add: groupStep_def)
  then show ?thesis by (simp add: newLine_def)
next
  case False
  then have ne: "ls \<noteq> []" and eq: "groupStep ls t = butlast ls @ [addWord (last ls) t]"
    by (auto simp add: groupStep_def)
  have "concat (map words ls) = concat (map words (butlast ls @ [last ls]))"
    using ne by simp
  then show ?thesis using eq by (simp add: addWord_def Let_def)
qed

lemma words_foldl:
  "mset (concat (map words (foldl groupStep ls ts))) = mset (concat (map words ls)) + mset ts"
  by (induction ts arbitrary: ls) (simp_all add: words_groupStep)

lemma words_groupLoop: "mset (concat (map words (groupLoop ts))) = mset ts"
  by (simp add: groupLoop_def words_foldl)

section \<open>Sorting the words of a line and shaping the output\<close>

lemma lineNumber_sortLine: "lineNumber (sortLine l) = lineNumber l"
  by (simp add: sortLine_def Let_def)

lemma words_sortLine: "words (sortLine l) = sort_key topX (words l)"
  by (simp add: sortLine_def Let_def)

lemma line_text_sortLine: "line_text (sortLine l) = joinSpace (map ann_text (words (sortLine l)))"
  by (simp add: sortLine_def Let_def)

lemma line_boundingBox_sortLine: "line_boundingBox (sortLine l) = line_boundingBox l"
  by (simp add: sortLine_def Let_def)

lemma mset_concat_sortLine:
  "mset (concat (map words (map sortLine ls))) = mset (concat (map words ls))"
  by (induction ls) (simp_all add: words_sortLine)

lemma lineNumber_groupedLines:
  "map lineNumber (groupedLines tds) = [1..<Suc (length (groupedLines tds))]"
  using lineNumber_groupLoop [of "sortedTexts tds"]
  by (simp add: groupedLines_def comp_def lineNumber_sortLine del: upt_Suc)

lemma words_groupedLines: "mset (concat (map words (groupedLines tds))) = mset tds"
  unfolding groupedLines_def mset_concat_sortLine words_groupLoop sortedTexts_def
  by simp

lemma groupedLines_Nil: "groupedLines [] = []"
  by (simp add: groupedLines_def sortedTexts_def groupLoop_def)

lemma organize_Some: "organizeTextByLines (Some tds) = map toOutLine (groupedLines tds)"
  by (cases tds) (simp_all add: organizeTextByLines_def groupedLines_Nil)

lemma organize_None: "organizeTextByLines None = []"
  by (simp add: organizeTextByLines_def)

section \<open>The example inputs evaluated\<close>

lemma topY_topLeftWord [simp]: "topY (topLeftWord s px py) = py"
  by (simp add: topY_def topLeftWord_def coordY_def vertexAt_def orElse_def)

lemma topX_topLeftWord [simp]: "topX (topLeftWord s px py) = px"
  by (simp add: topX_def topLeftWord_def coordX_def vertexAt_def orElse_def)

lemma coordX_topLeftWord [simp]: "coordX (topLeftWord s px py) (Suc i) = None"
  by (simp add: topLeftWord_def coordX_def vertexAt_def)

lemma coordY_topLeftWord [simp]: "coordY (topLeftWord s px py) (Suc i) = None"
  by (simp add: topLeftWord_def coordY_def vertexAt_def)

lemma ann_text_topLeftWord [simp]: "ann_text (topLeftWord s px py) = s"
  by (simp add: topLeftWord_def)

lemma confidence_topLeftWord [simp]: "confidence (topLeftWord s px py) = Some 0"
  by (simp add: topLeftWord_def)

lemmas run_defs =
  organizeTextByLines_def groupedLines_def sortedTexts_def groupLoop_def groupStep_def
  newLine_def addWord_def lineThreshold_def sortLine_def toOutLine_def toOutWord_def Let_def

lemma walkFrom_anchored:
  "anchored (anchor, current) \<Longrightarrow> list_all anchored (walkFrom anchor current rest)"
proof (induction anchor current rest rule: walkFrom.induct)
  case (1 anchor current)
  then show ?case by simp
next
  case (2 anchor current w ws)
  show ?case
  proof (cases "\<bar>topY w - anchor\<bar> \<le> 20")
    case True
    then have "anchored (anchor, current @ [w])"
      using "2.prems" by (auto simp add: anchored_def)
    then show ?thesis using True "2.IH"(1) by simp
  next
    case False
    have "anchored (topY w, [w])" by (simp add: anchored_def)
    then show ?thesis using False "2.IH"(2) "2.prems" by simp
  qed
qed

lemma specLines_anchored: "list_all anchored (specLines ts)"
proof (cases ts)
  case Nil
  then show ?thesis by simp
next
  case (Cons t ts')
  have "anchored (topY t, [t])" by (simp add: anchored_def)
  then show ?thesis using Cons by (simp add: walkFrom_anchored)
qed

lemma hd_walkFrom: "fst (hd (walkFrom anchor current rest)) = anchor"
  by (induction anchor current rest rule: walkFrom.induct) auto

lemma walkFrom_not_Nil: "walkFrom anchor current rest \<noteq> []"
  by (induction anchor current rest rule: walkFrom.induct) auto

lemma walkFrom_apart:
  "successively (\<lambda>p q. \<bar>fst q - fst p\<bar> > 20) (walkFrom anchor current rest)"
proof (induction anchor current rest rule: walkFrom.induct)
  case (1 anchor current)
  show ?case by simp
next
  case (2 anchor current w ws)
  show ?case
  proof (cases "\<bar>topY w - anchor\<bar> \<le> 20")
    case True
    then show ?thesis using 2 by simp
  next
    case False
    then show ?thesis
      using 2 hd_walkFrom [of "topY w" "[w]" ws] walkFrom_not_Nil [of "topY w" "[w]" ws]
      by (simp add: successively_Cons)
  qed
qed

lemma specLines_apart:
  "successively (\<lambda>p q. \<bar>fst q - fst p\<bar> > 20) (specLines ts)"
  by (cases ts) (simp_all add: walkFrom_apart)

lemma out_words_specLines:
  "map out_words (organizeTextByLines (Some tds)) =
     map (\<lambda>p. map toOutWord (sort_key topX (snd p))) (specLines (sortedTexts tds))"
proof -
  have "map out_words (organizeTextByLines (Some tds)) =
        map (\<lambda>l. map toOutWord (sort_key topX (snd (anchorWords l)))) (groupLoop (sortedTexts tds))"
    by (simp add: organize_Some groupedLines_def toOutLine_def words_sortLine anchorWords_def)
  also have "\<dots> = map (\<lambda>p. map toOutWord (sort_key topX (snd p)))
                     (map anchorWords (groupLoop (sortedTexts tds)))"
    by (simp add: comp_def)
  finally show ?thesis by (simp only: groupLoop_specLines)
qed

lemma joinSpace_toOutWord: "map word_text (map toOutWord ws) = map ann_text ws"
  by (simp add: toOutWord_def comp_def)

lemma pos_x_toOutWord: "map (\<lambda>w. pos_x (word_position w)) (map toOutWord ws) = map topX ws"
  by (simp add: toOutWord_def comp_def)

lemma coordY_topLeftWord_pos: "0 < i \<Longrightarrow> coordY (topLeftWord s px py) i = None"
  by (simp add: topLeftWord_def coordY_def vertexAt_def)

lemma coordX_topLeftWord_pos: "0 < i \<Longrightarrow> coordX (topLeftWord s px py) i = None"
  by (simp add: topLeftWord_def coordX_def vertexAt_def)

lemma organize_exampleWords:
  "organizeTextByLines (Some [topLeftWord ''A'' 50 10, topLeftWord ''B'' 10 12, topLeftWord ''C'' 5 60]) =
   [\<lparr> out_lineNumber = 1, out_text = ''B A'', wordCount = 2,
      out_words = [toOutWord (topLeftWord ''B'' 10 12), toOutWord (topLeftWord ''A'' 50 10)],
      out_boundingBox = \<lparr> minX = 10, maxX = 50, minY = 10, maxY = 12 \<rparr> \<rparr>,
    \<lparr> out_lineNumber = 2, out_text = ''C'', wordCount = 1,
      out_words = [toOutWord (topLeftWord ''C'' 5 60)],
      out_boundingBox = \<lparr> minX = 5, maxX = 5, minY = 60, maxY = 60 \<rparr> \<rparr>]"
  by (simp add: organizeTextByLines_def groupedLines_def sortedTexts_def groupLoop_def groupStep_def
     newLine_def addWord_def lineThreshold_def sortLine_def toOutLine_def Let_def orElse_def
     coordY_topLeftWord_pos coordX_topLeftWord_pos)

section \<open>Words that read the same give the same lines\<close>

lemma coords_boxWord:
  "topX (boxWord s px py qx qy) = px" "topY (boxWord s px py qx qy) = py"
  "coordX (boxWord s px py qx qy) 1 = Some qx" "coordY (boxWord s px py qx qy) 2 = Some qy"
  "coordX (boxWord s px py qx qy) (Suc 0) = Some qx" "coordX (boxWord s px py qx qy) 2 = Some qx"
  by (simp_all add: boxWord_def topX_def topY_def coordX_def coordY_def vertexAt_def orElse_def)

lemma insort_key_map:
  "insort_key k (f a) (map f xs) = map f (insort_key (\<lambda>x. k (f x)) a xs)"
  by (induction xs) simp_all

lemma sort_key_map: "sort_key k (map f xs) = map f (sort_key (\<lambda>x. k (f x)) xs)"
  by (induction xs) (simp_all add: insort_key_map)

lemma groupStep_mapWords:
  assumes "sameReadings (f t) t"
  shows "groupStep (map (mapWords f) ls) (f t) = map (mapWords f) (groupStep ls t)"
proof (cases "ls = []")
  case True
  then show ?thesis
    using assms by (simp add: groupStep_def newLine_def mapWords_def sameReadings_def)
next
  case False
  then have l: "last (map (mapWords f) ls) = mapWords f (last ls)"
    and b: "butlast (map (mapWords f) ls) = map (mapWords f) (butlast ls)"
    by (simp_all add: last_map map_butlast)
  have a: "averageY (mapWords f l) = averageY l" for l
    by (simp add: mapWords_def)
  have n: "newLine n (f t) = mapWords f (newLine n t)" for n
    using assms by (simp add: newLine_def mapWords_def sameReadings_def)
  have r: "ann_text (f t) = ann_text t" "topX (f t) = topX t" "topY (f t) = topY t"
    "orElse (coordX (f t) 1) (topX t) = orElse (coordX t 1) (topX t)"
    "orElse (coordY (f t) 2) (topY t) = orElse (coordY t 2) (topY t)"
    using assms unfolding sameReadings_def by metis+
  have w: "addWord (mapWords f l) (f t) = mapWords f (addWord l t)" for l
    by (simp add: addWord_def mapWords_def Let_def r del: One_nat_def)
  show ?thesis
    using False assms by (simp add: groupStep_def l b a n w sameReadings_def)
qed

lemma foldl_groupStep_mapWords:
  assumes "\<forall>t \<in> set ts. sameReadings (f t) t"
  shows "foldl groupStep (map (mapWords f) ls) (map f ts) =
         map (mapWords f) (foldl groupStep ls ts)"
  using assms
proof (induction ts arbitrary: ls)
  case Nil
  show ?case by simp
next
  case (Cons t ts)
  then show ?case by (simp add: groupStep_mapWords)
qed

lemma insort_key_cong_on:
  "k a = k' a \<Longrightarrow> (\<forall>x \<in> set xs. k x = k' x) \<Longrightarrow> insort_key k a xs = insort_key k' a xs"
  by (induction xs) simp_all

lemma sort_key_cong_on: "(\<forall>x \<in> set xs. k x = k' x) \<Longrightarrow> sort_key k xs = sort_key k' xs"
proof (induction xs)
  case Nil
  show ?case by simp
next
  case (Cons a xs)
  then have "sort_key k xs = sort_key k' xs" by simp
  moreover have "insort_key k a (sort_key k' xs) = insort_key k' a (sort_key k' xs)"
    using Cons.prems by (intro insort_key_cong_on) simp_all
  ultimately show ?case by simp
qed

lemma toOutLine_sortLine_mapWords:
  assumes "\<forall>t \<in> set (words l). sameReadings (f t) t"
  shows "toOutLine (sortLine (mapWords f l)) = toOutLine (sortLine l)"
proof -
  have k: "sort_key (\<lambda>x. topX (f x)) (words l) = sort_key topX (words l)"
    using assms by (intro sort_key_cong_on) (simp add: sameReadings_def)
  have s: "\<forall>t \<in> set (sort_key topX (words l)). sameReadings (f t) t"
    using assms by simp
  have h1: "map (\<lambda>x. ann_text (f x)) (sort_key topX (words l)) =
            map ann_text (sort_key topX (words l))"
    using s by (intro map_cong refl) (simp add: sameReadings_def)
  have h2: "map (\<lambda>x. toOutWord (f x)) (sort_key topX (words l)) =
            map toOutWord (sort_key topX (words l))"
    using s by (intro map_cong refl) (simp add: sameReadings_def toOutWord_def)
  have "words (sortLine (mapWords f l)) = map f (sort_key topX (words l))"
    by (simp add: words_sortLine mapWords_def sort_key_map k)
  then show ?thesis
    by (simp add: toOutLine_def line_text_sortLine lineNumber_sortLine line_boundingBox_sortLine
        words_sortLine mapWords_def comp_def h1 h2)
qed

lemma organize_map_sameReadings:
  assumes "\<forall>t \<in> set tds. sameReadings (f t) t"
  shows "organizeTextByLines (Some (map f tds)) = organizeTextByLines (Some tds)"
proof -
  have k: "sort_key (\<lambda>x. topY (f x)) tds = sort_key topY tds"
    using assms by (intro sort_key_cong_on) (simp add: sameReadings_def)
  have st: "sortedTexts (map f tds) = map f (sortedTexts tds)"
    by (simp add: sortedTexts_def sort_key_map k)
  have a: "\<forall>t \<in> set (sortedTexts tds). sameReadings (f t) t"
    using assms by (simp add: sortedTexts_def)
  have g: "groupLoop (map f (sortedTexts tds)) = map (mapWords f) (groupLoop (sortedTexts tds))"
    using foldl_groupStep_mapWords [OF a, of "[]"] by (simp add: groupLoop_def)
  have sub: "\<forall>l \<in> set (groupLoop (sortedTexts tds)). \<forall>t \<in> set (words l). sameReadings (f t) t"
  proof (intro ballI)
    fix l t assume "l \<in> set (groupLoop (sortedTexts tds))" "t \<in> set (words l)"
    then have "t \<in> set (concat (map words (groupLoop (sortedTexts tds))))" by auto
    then have "t \<in># mset (concat (map words (groupLoop (sortedTexts tds))))" by simp
    then have "t \<in> set (sortedTexts tds)" by (simp only: words_groupLoop set_mset_mset)
    then show "sameReadings (f t) t" using a by blast
  qed
  have "map (\<lambda>l. toOutLine (sortLine (mapWords f l))) (groupLoop (sortedTexts tds)) =
        map (\<lambda>l. toOutLine (sortLine l)) (groupLoop (sortedTexts tds))"
    using sub by (intro map_cong refl) (simp add: toOutLine_sortLine_mapWords)
  then show ?thesis
    by (simp add: organize_Some groupedLines_def st g comp_def)
qed

lemma sameReadings_fillCoordinates: "sameReadings (fillCoordinates a) a"
  by (simp add: sameReadings_def fillCoordinates_def topX_def topY_def coordX_def coordY_def
      vertexAt_def fillVertex_def orElse_def split: option.splits)

lemma words_groupLoop_not_Nil: "l \<in> set (groupLoop ts) \<Longrightarrow> words l \<noteq> []"
proof -
  assume "l \<in> set (groupLoop ts)"
  then have "anchorWords l \<in> set (specLines ts)"
    using groupLoop_specLines [of ts] by (metis image_eqI set_map)
  then have "anchored (anchorWords l)"
    using specLines_anchored [of ts] by (simp add: list_all_iff)
  then show ?thesis by (simp add: anchored_def anchorWords_def)
qed

lemma wordCount_organize:
  assumes "l \<in> set (organizeTextByLines textDetails)"
  shows "wordCount l = length (out_words l) \<and> 0 < wordCount l"
proof (cases textDetails)
  case None
  then show ?thesis using assms by (simp add: organize_None)
next
  case (Some tds)
  then obtain k where k: "k \<in> set (groupLoop (sortedTexts tds))" and l: "l = toOutLine (sortLine k)"
    using assms by (auto simp add: organize_Some groupedLines_def)
  have "words k \<noteq> []" using k by (rule words_groupLoop_not_Nil)
  then show ?thesis using l by (simp add: toOutLine_def words_sortLine)
qed

lemma organize_bare:
  "organizeTextByLines (Some [\<lparr> ann_text = s, confidence = c, boundingBox = None \<rparr>]) =
     [\<lparr> out_lineNumber = 1, out_text = s, wordCount = 1,
        out_words = [\<lparr> word_text = s, word_confidence = c,
                       word_position = \<lparr> pos_x = 0, pos_y = 0 \<rparr> \<rparr>],
        out_boundingBox = \<lparr> minX = 0, maxX = 0, minY = 0, maxY = 0 \<rparr> \<rparr>]"
  by (simp add: run_defs topX_def topY_def coordX_def coordY_def vertexAt_def orElse_def)

lemma confidence_details:
  "\<forall>d \<in> set (details (detectText env response now)). confidence d \<noteq> None"
proof (cases "unset (GOOGLE_CLOUD_API_KEY env) \<and> unset (GOOGLE_APPLICATION_CREDENTIALS env)")
  case True
  then have "details (detectText env response now) = details (mockResult now)"
    by (simp add: detectText_def)
  then show ?thesis by (simp add: mockResult_def del: not_None_eq)
next
  case False
  have "details (detectText env response now) = [] \<or>
        (\<exists>ds. details (detectText env response now) = map toTextDetail ds)"
    using False
    by (simp add: detectText_def noTextResult_def errorResult_def Let_def
        split: sum.splits option.splits) blast
  then show ?thesis by (auto simp add: toTextDetail_def)
qed

lemma organize_halfWord:
  "organizeTextByLines (Some [halfWord]) =
     [\<lparr> out_lineNumber = 1, out_text = ''h'', wordCount = 1,
        out_words = [\<lparr> word_text = ''h'', word_confidence = None,
                       word_position = \<lparr> pos_x = 0, pos_y = 7 \<rparr> \<rparr>],
        out_boundingBox = \<lparr> minX = 0, maxX = 0, minY = 7, maxY = 7 \<rparr> \<rparr>]"
  by (simp add: run_defs halfWord_def topX_def topY_def coordX_def coordY_def vertexAt_def orElse_def)

section \<open>Lines of a sorted list, and the order of the input\<close>

lemma walkFrom_takeWhile:
  "walkFrom anchor current ws =
     (anchor, current @ takeWhile (near anchor) ws) # specLines (dropWhile (near anchor) ws)"
  by (induction anchor current ws rule: walkFrom.induct) (simp_all add: near_def)

lemma specLines_takeWhile:
  "specLines (w # ws) =
     (topY w, takeWhile (near (topY w)) (w # ws)) # specLines (dropWhile (near (topY w)) (w # ws))"
  by (simp add: walkFrom_takeWhile near_def)

lemma takeWhile_sorted_le:
  "sorted (map k xs) \<Longrightarrow> takeWhile (\<lambda>x. k x \<le> c) xs = filter (\<lambda>x. k x \<le> c) xs"
proof (induction xs)
  case Nil
  show ?case by simp
next
  case (Cons x xs)
  show ?case
  proof (cases "k x \<le> c")
    case True
    then show ?thesis using Cons by simp
  next
    case False
    then have "\<forall>y \<in> set xs. \<not> k y \<le> c" using Cons.prems by auto
    then have "filter (\<lambda>x. k x \<le> c) xs = []" by (simp add: filter_empty_conv)
    then show ?thesis using False by simp
  qed
qed

lemma dropWhile_sorted_le:
  "sorted (map k xs) \<Longrightarrow> dropWhile (\<lambda>x. k x \<le> c) xs = filter (\<lambda>x. \<not> k x \<le> c) xs"
proof (induction xs)
  case Nil
  show ?case by simp
next
  case (Cons x xs)
  show ?case
  proof (cases "k x \<le> c")
    case True
    then show ?thesis using Cons by simp
  next
    case False
    then have "\<forall>y \<in> set xs. \<not> k y \<le> c" using Cons.prems by auto
    then have "filter (\<lambda>x. \<not> k x \<le> c) xs = xs" by (simp add: filter_id_conv)
    then show ?thesis using False by simp
  qed
qed

lemma near_above: "anchor \<le> topY w \<Longrightarrow> near anchor w = (topY w \<le> anchor + 20)"
  by (auto simp add: near_def)

lemma near_sorted:
  assumes "sorted (map topY (w # ws))"
  shows "takeWhile (near (topY w)) (w # ws) = filter (\<lambda>v. topY v \<le> topY w + 20) (w # ws)"
    and "dropWhile (near (topY w)) (w # ws) = filter (\<lambda>v. \<not> topY v \<le> topY w + 20) (w # ws)"
proof -
  have ge: "\<forall>v \<in> set (w # ws). topY w \<le> topY v" using assms by auto
  have "takeWhile (near (topY w)) (w # ws) = takeWhile (\<lambda>v. topY v \<le> topY w + 20) (w # ws)"
    using ge by (intro takeWhile_cong refl) (auto simp add: near_above)
  then show "takeWhile (near (topY w)) (w # ws) = filter (\<lambda>v. topY v \<le> topY w + 20) (w # ws)"
    using assms by (simp only: takeWhile_sorted_le)
  have "dropWhile (near (topY w)) (w # ws) = dropWhile (\<lambda>v. topY v \<le> topY w + 20) (w # ws)"
    using ge by (intro dropWhile_cong refl) (auto simp add: near_above)
  then show "dropWhile (near (topY w)) (w # ws) = filter (\<lambda>v. \<not> topY v \<le> topY w + 20) (w # ws)"
    using assms by (simp only: dropWhile_sorted_le)
qed

lemma specLines_sorted:
  assumes "sorted (map topY (w # ws))"
  shows "specLines (w # ws) =
     (topY w, filter (\<lambda>v. topY v \<le> topY w + 20) (w # ws)) #
     specLines (filter (\<lambda>v. \<not> topY v \<le> topY w + 20) (w # ws))"
  using near_sorted [OF assms] specLines_takeWhile [of w ws] by simp


lemma insort_key_lex:
  assumes "sorted (map (\<lambda>w. (topX w, topY w)) ls)" "\<forall>b \<in> set ls. topY a \<le> topY b"
  shows "sorted (map (\<lambda>w. (topX w, topY w)) (insort_key topX a ls))"
  using assms
proof (induction ls)
  case Nil
  show ?case by simp
next
  case (Cons b ls)
  show ?case
  proof (cases "topX a \<le> topX b")
    case True
    have ab: "(topX a, topY a) \<le> (topX b, topY b)" using True Cons.prems(2) by auto
    have "\<forall>c \<in> set ls. (topX b, topY b) \<le> (topX c, topY c)" using Cons.prems(1) by simp
    then have "\<forall>c \<in> set ls. (topX a, topY a) \<le> (topX c, topY c)"
      using ab by (meson order_trans)
    then show ?thesis using True ab Cons.prems(1) by simp
  next
    case False
    then have ba: "(topX b, topY b) \<le> (topX a, topY a)" by auto
    have "sorted (map (\<lambda>w. (topX w, topY w)) (insort_key topX a ls))"
      using Cons by simp
    then show ?thesis using False ba Cons.prems(1) by (auto simp add: set_insort_key)
  qed
qed

lemma sort_key_lex:
  "sorted (map topY g) \<Longrightarrow> sorted (map (\<lambda>w. (topX w, topY w)) (sort_key topX g))"
proof (induction g)
  case Nil
  show ?case by simp
next
  case (Cons a g)
  then have "sorted (map (\<lambda>w. (topX w, topY w)) (sort_key topX g))" by simp
  moreover have "\<forall>b \<in> set (sort_key topX g). topY a \<le> topY b" using Cons.prems by simp
  ultimately show ?case by (simp add: insort_key_lex)
qed

lemma sorted_same_mset:
  fixes xs ys :: "'k::linorder list"
  assumes "sorted xs" "sorted ys" "mset xs = mset ys"
  shows "xs = ys"
proof -
  have "sort xs = ys" using assms(2,3) by (intro properties_for_sort) simp_all
  moreover have "sort xs = xs" using assms(1) by (simp add: sort_key_id_if_sorted)
  ultimately show ?thesis by simp
qed


lemma sorted_unique_on_key:
  fixes k :: "'a \<Rightarrow> 'k::linorder"
  assumes "sorted (map k xs)" "sorted (map k ys)" "mset xs = mset ys"
    and tie: "\<And>a b. a \<in> set xs \<Longrightarrow> b \<in> set xs \<Longrightarrow> k a = k b \<Longrightarrow> f a = f b"
  shows "map f xs = map f ys"
proof -
  have "mset (map k xs) = mset (map k ys)" using assms(3) by simp
  with assms(1,2) have keys: "map k xs = map k ys" by (rule sorted_same_mset)
  have s: "set ys = set xs" using assms(3) by (rule mset_eq_setD [symmetric])
  have len: "length xs = length ys" using assms(3) by (rule mset_eq_length)
  show ?thesis
  proof (rule nth_equalityI)
    show "length (map f xs) = length (map f ys)" using len by simp
  next
    fix i assume "i < length (map f xs)"
    then have i: "i < length xs" "i < length ys" using len by simp_all
    have "map k xs ! i = map k ys ! i" using keys by simp
    then have e: "k (xs ! i) = k (ys ! i)" using i by simp
    have m1: "xs ! i \<in> set xs" using i(1) by (rule nth_mem)
    have "ys ! i \<in> set ys" using i(2) by (rule nth_mem)
    then have m2: "ys ! i \<in> set xs" by (simp only: s)
    have "f (xs ! i) = f (ys ! i)" using m1 m2 e by (rule tie)
    then show "map f xs ! i = map f ys ! i" using i by simp
  qed
qed

lemma lineNumbers_of_organize:
  "map out_lineNumber (organizeTextByLines textDetails) =
     [1..<Suc (length (organizeTextByLines textDetails))]"
proof (cases textDetails)
  case None
  then show ?thesis by (simp add: organize_None)
next
  case (Some tds)
  then show ?thesis
    using lineNumber_groupedLines [of tds]
    by (simp add: organize_Some comp_def toOutLine_def del: upt_Suc)
qed

lemma groups_order_independent:
  assumes "sorted (map topY s1)" "sorted (map topY s2)" "mset s1 = mset s2"
    and "\<And>a b. a \<in> set s1 \<Longrightarrow> b \<in> set s1 \<Longrightarrow> (topX a, topY a) = (topX b, topY b) \<Longrightarrow>
           toOutWord a = toOutWord b"
  shows "map (\<lambda>p. map toOutWord (sort_key topX (snd p))) (specLines s1) =
         map (\<lambda>p. map toOutWord (sort_key topX (snd p))) (specLines s2)"
  using assms
proof (induction "length s1" arbitrary: s1 s2 rule: less_induct)
  case less
  note tie = less.prems(4)
  show ?case
  proof (cases s1)
    case Nil
    then have "s2 = []" using less.prems(3) by simp
    then show ?thesis using Nil by simp
  next
    case (Cons w1 r1)
    then have "s2 \<noteq> []" using less.prems(3) by auto
    then obtain w2 r2 where s2: "s2 = w2 # r2" by (cases s2) auto
    have sets: "set s2 = set s1" using less.prems(3) by (rule mset_eq_setD [symmetric])
    have "w2 \<in> set s1" using s2 sets by auto
    then have le1: "topY w1 \<le> topY w2" using less.prems(1) Cons by auto
    have "w1 \<in> set s2" using Cons sets by auto
    then have le2: "topY w2 \<le> topY w1" using less.prems(2) s2 by auto
    have y: "topY w2 = topY w1" using le1 le2 by simp
    let ?P = "\<lambda>v. topY v \<le> topY w1 + 20"
    let ?Q = "\<lambda>v. \<not> topY v \<le> topY w1 + 20"
    have e1: "specLines s1 = (topY w1, filter ?P s1) # specLines (filter ?Q s1)"
      using less.prems(1) unfolding Cons by (rule specLines_sorted)
    have "specLines (w2 # r2) =
            (topY w2, filter (\<lambda>v. topY v \<le> topY w2 + 20) (w2 # r2)) #
            specLines (filter (\<lambda>v. \<not> topY v \<le> topY w2 + 20) (w2 # r2))"
      using less.prems(2) unfolding s2 by (rule specLines_sorted)
    then have e2: "specLines s2 = (topY w1, filter ?P s2) # specLines (filter ?Q s2)"
      by (simp only: y s2)
    have hd_eq: "map toOutWord (sort_key topX (filter ?P s1)) =
                 map toOutWord (sort_key topX (filter ?P s2))"
    proof (rule sorted_unique_on_key [where k = "\<lambda>w. (topX w, topY w)"])
      show "sorted (map (\<lambda>w. (topX w, topY w)) (sort_key topX (filter ?P s1)))"
        using less.prems(1) by (intro sort_key_lex sorted_filter)
      show "sorted (map (\<lambda>w. (topX w, topY w)) (sort_key topX (filter ?P s2)))"
        using less.prems(2) by (intro sort_key_lex sorted_filter)
      show "mset (sort_key topX (filter ?P s1)) = mset (sort_key topX (filter ?P s2))"
        using less.prems(3) by simp
      fix a b
      assume "a \<in> set (sort_key topX (filter ?P s1))" "b \<in> set (sort_key topX (filter ?P s1))"
        and k: "(topX a, topY a) = (topX b, topY b)"
      then have "a \<in> set s1" "b \<in> set s1" by simp_all
      then show "toOutWord a = toOutWord b" using k by (rule tie)
    qed
    have "w1 \<in> set s1" "\<not> ?Q w1" using Cons by simp_all
    then have shorter: "length (filter ?Q s1) < length s1" by (rule length_filter_less)
    have tl_eq: "map (\<lambda>p. map toOutWord (sort_key topX (snd p))) (specLines (filter ?Q s1)) =
                 map (\<lambda>p. map toOutWord (sort_key topX (snd p))) (specLines (filter ?Q s2))"
    proof (rule less.hyps [OF shorter])
      show "sorted (map topY (filter ?Q s1))" using less.prems(1) by (rule sorted_filter)
      show "sorted (map topY (filter ?Q s2))" using less.prems(2) by (rule sorted_filter)
      show "mset (filter ?Q s1) = mset (filter ?Q s2)" using less.prems(3) by simp
      fix a b
      assume "a \<in> set (filter ?Q s1)" "b \<in> set (filter ?Q s1)"
        and k: "(topX a, topY a) = (topX b, topY b)"
      then have "a \<in> set s1" "b \<in> set s1" by simp_all
      then show "toOutWord a = toOutWord b" using k by (rule tie)
    qed
    show ?thesis unfolding e1 e2 using hd_eq tl_eq by simp
  qed
qed

lemma lineContents_by_words:
  assumes "l \<in> set (organizeTextByLines textDetails)"
  shows "out_text l = joinSpace (map word_text (out_words l)) \<and> wordCount l = length (out_words l)"
proof (cases textDetails)
  case None
  then show ?thesis using assms by (simp add: organize_None)
next
  case (Some tds)
  then obtain k where "l = toOutLine (sortLine k)"
    using assms by (auto simp add: organize_Some groupedLines_def)
  then show ?thesis
    by (simp add: toOutLine_def line_text_sortLine words_sortLine joinSpace_toOutWord del: map_map)
qed

lemma lineContents_determined:
  assumes "map out_words (organizeTextByLines t1) = map out_words (organizeTextByLines t2)"
  shows "map lineContents (organizeTextByLines t1) = map lineContents (organizeTextByLines t2)"
proof (rule nth_equalityI)
  have "length (map out_words (organizeTextByLines t1)) = length (map out_words (organizeTextByLines t2))"
    using assms by simp
  then have len: "length (organizeTextByLines t1) = length (organizeTextByLines t2)" by simp
  then show "length (map lineContents (organizeTextByLines t1)) =
             length (map lineContents (organizeTextByLines t2))" by simp
  fix i assume "i < length (map lineContents (organizeTextByLines t1))"
  then have i: "i < length (organizeTextByLines t1)" "i < length (organizeTextByLines t2)"
    using len by simp_all
  have "map out_words (organizeTextByLines t1) ! i = map out_words (organizeTextByLines t2) ! i"
    using assms by simp
  then have w: "out_words (organizeTextByLines t1 ! i) = out_words (organizeTextByLines t2 ! i)"
    using i by simp
  have n: "out_lineNumber (organizeTextByLines t ! i) = Suc i" if "i < length (organizeTextByLines t)" for t
  proof -
    have "map out_lineNumber (organizeTextByLines t) ! i = [1..<Suc (length (organizeTextByLines t))] ! i"
      using lineNumbers_of_organize [of t] by simp
    then show ?thesis using that by (simp del: upt_Suc)
  qed
  have c: "out_text (organizeTextByLines t ! i) = joinSpace (map word_text (out_words (organizeTextByLines t ! i))) \<and>
           wordCount (organizeTextByLines t ! i) = length (out_words (organizeTextByLines t ! i))"
    if "i < length (organizeTextByLines t)" for t
    using that by (intro lineContents_by_words [of _ t]) simp
  show "map lineContents (organizeTextByLines t1) ! i = map lineContents (organizeTextByLines t2) ! i"
    using i w n [of t1] n [of t2] c [of t1] c [of t2] by (simp add: lineContents_def)
qed

section \<open>Permutations of the input and ties\<close>

lemma groups_mset_independent:
  assumes "sorted (map topY s1)" "sorted (map topY s2)" "mset s1 = mset s2"
  shows "map (\<lambda>p. (fst p, mset (snd p))) (specLines s1) =
         map (\<lambda>p. (fst p, mset (snd p))) (specLines s2)"
  using assms
proof (induction "length s1" arbitrary: s1 s2 rule: less_induct)
  case less
  show ?case
  proof (cases s1)
    case Nil
    then have "s2 = []" using less.prems(3) by simp
    then show ?thesis using Nil by simp
  next
    case (Cons w1 r1)
    then have "s2 \<noteq> []" using less.prems(3) by auto
    then obtain w2 r2 where s2: "s2 = w2 # r2" by (cases s2) auto
    have sets: "set s2 = set s1" using less.prems(3) by (rule mset_eq_setD [symmetric])
    have "w2 \<in> set s1" using s2 sets by auto
    then have le1: "topY w1 \<le> topY w2" using less.prems(1) Cons by auto
    have "w1 \<in> set s2" using Cons sets by auto
    then have le2: "topY w2 \<le> topY w1" using less.prems(2) s2 by auto
    have y: "topY w2 = topY w1" using le1 le2 by simp
    let ?P = "\<lambda>v. topY v \<le> topY w1 + 20"
    let ?Q = "\<lambda>v. \<not> topY v \<le> topY w1 + 20"
    have e1: "specLines s1 = (topY w1, filter ?P s1) # specLines (filter ?Q s1)"
      using less.prems(1) unfolding Cons by (rule specLines_sorted)
    have "specLines (w2 # r2) =
            (topY w2, filter (\<lambda>v. topY v \<le> topY w2 + 20) (w2 # r2)) #
            specLines (filter (\<lambda>v. \<not> topY v \<le> topY w2 + 20) (w2 # r2))"
      using less.prems(2) unfolding s2 by (rule specLines_sorted)
    then have e2: "specLines s2 = (topY w1, filter ?P s2) # specLines (filter ?Q s2)"
      by (simp only: y s2)
    have hd_eq: "mset (filter ?P s1) = mset (filter ?P s2)" using less.prems(3) by simp
    have "w1 \<in> set s1" "\<not> ?Q w1" using Cons by simp_all
    then have shorter: "length (filter ?Q s1) < length s1" by (rule length_filter_less)
    have tl_eq: "map (\<lambda>p. (fst p, mset (snd p))) (specLines (filter ?Q s1)) =
                 map (\<lambda>p. (fst p, mset (snd p))) (specLines (filter ?Q s2))"
    proof (rule less.hyps [OF shorter])
      show "sorted (map topY (filter ?Q s1))" using less.prems(1) by (rule sorted_filter)
      show "sorted (map topY (filter ?Q s2))" using less.prems(2) by (rule sorted_filter)
      show "mset (filter ?Q s1) = mset (filter ?Q s2)" using less.prems(3) by simp
    qed
    show ?thesis unfolding e1 e2 using hd_eq tl_eq by simp
  qed
qed

lemma words_groupedLines_specLines:
  "map (\<lambda>l. mset (words l)) (groupedLines tds) =
     map (\<lambda>p. mset (snd p)) (specLines (sortedTexts tds))"
proof -
  have "map (\<lambda>l. mset (words l)) (groupedLines tds) =
        map (\<lambda>l. mset (snd (anchorWords l))) (groupLoop (sortedTexts tds))"
    by (simp add: groupedLines_def words_sortLine anchorWords_def comp_def)
  also have "\<dots> = map (\<lambda>p. mset (snd p)) (map anchorWords (groupLoop (sortedTexts tds)))"
    by (simp add: comp_def)
  finally show ?thesis by (simp only: groupLoop_specLines)
qed

lemma grouping_order_independent:
  assumes "mset ws1 = mset ws2"
  shows "map (\<lambda>l. mset (words l)) (groupedLines ws1) = map (\<lambda>l. mset (words l)) (groupedLines ws2)"
proof -
  have "map (\<lambda>p. (fst p, mset (snd p))) (specLines (sortedTexts ws1)) =
        map (\<lambda>p. (fst p, mset (snd p))) (specLines (sortedTexts ws2))"
    using assms by (intro groups_mset_independent) (simp_all add: sortedTexts_def)
  then have "map snd (map (\<lambda>p. (fst p, mset (snd p))) (specLines (sortedTexts ws1))) =
        map snd (map (\<lambda>p. (fst p, mset (snd p))) (specLines (sortedTexts ws2)))"
    by simp
  then have "map (\<lambda>p. mset (snd p)) (specLines (sortedTexts ws1)) =
             map (\<lambda>p. mset (snd p)) (specLines (sortedTexts ws2))"
    by (simp add: comp_def)
  then show ?thesis by (simp only: words_groupedLines_specLines)
qed

lemma organize_by_grouping:
  "map (\<lambda>l. mset (out_words l)) (organizeTextByLines (Some tds)) =
     map (\<lambda>m. image_mset toOutWord m) (map (\<lambda>l. mset (words l)) (groupedLines tds))"
  "map wordCount (organizeTextByLines (Some tds)) =
     map size (map (\<lambda>l. mset (words l)) (groupedLines tds))"
  "length (organizeTextByLines (Some tds)) = length (map (\<lambda>l. mset (words l)) (groupedLines tds))"
  by (simp_all add: organize_Some toOutLine_def comp_def)

lemma counts_order_independent:
  assumes "mset ws1 = mset ws2"
  shows "map out_lineNumber (organizeTextByLines (Some ws1)) =
           map out_lineNumber (organizeTextByLines (Some ws2))"
    and "map wordCount (organizeTextByLines (Some ws1)) = map wordCount (organizeTextByLines (Some ws2))"
    and "map (\<lambda>l. mset (out_words l)) (organizeTextByLines (Some ws1)) =
         map (\<lambda>l. mset (out_words l)) (organizeTextByLines (Some ws2))"
proof -
  note g = grouping_order_independent [OF assms]
  show "map wordCount (organizeTextByLines (Some ws1)) = map wordCount (organizeTextByLines (Some ws2))"
    by (simp only: organize_by_grouping(2) g)
  show "map (\<lambda>l. mset (out_words l)) (organizeTextByLines (Some ws1)) =
         map (\<lambda>l. mset (out_words l)) (organizeTextByLines (Some ws2))"
    by (simp only: organize_by_grouping(1) g)
  have "length (organizeTextByLines (Some ws1)) = length (organizeTextByLines (Some ws2))"
    by (simp only: organize_by_grouping(3) g)
  then show "map out_lineNumber (organizeTextByLines (Some ws1)) =
           map out_lineNumber (organizeTextByLines (Some ws2))"
    by (simp only: lineNumbers_of_organize)
qed

lemma concat_walkFrom: "concat (map snd (walkFrom anchor current ws)) = current @ ws"
  by (induction anchor current ws rule: walkFrom.induct) simp_all

lemma concat_specLines: "concat (map snd (specLines ts)) = ts"
  by (cases ts) (simp_all add: concat_walkFrom)

lemma filter_cornerAt:
  "filter (cornerAt px py) ws = filter (\<lambda>w. topY w = py) (filter (\<lambda>w. topX w = px) ws)"
  "filter (cornerAt px py) ws = filter (\<lambda>w. topX w = px) (filter (\<lambda>w. topY w = py) ws)"
  by (auto simp add: cornerAt_def intro: filter_cong)

lemma cornerAt_sort_topX: "filter (cornerAt px py) (sort_key topX g) = filter (cornerAt px py) g"
  by (simp only: filter_cornerAt(1) sort_key_stable)

lemma cornerAt_sort_topY: "filter (cornerAt px py) (sort_key topY g) = filter (cornerAt px py) g"
  by (simp only: filter_cornerAt(2) sort_key_stable)

lemma filter_concat_sorted:
  "filter (cornerAt px py) (concat (map (\<lambda>p. sort_key topX (snd p)) ps)) =
   filter (cornerAt px py) (concat (map snd ps))"
  by (induction ps) (simp_all add: cornerAt_sort_topX)

lemma words_groupedLines_concat:
  "concat (map words (groupedLines tds)) =
     concat (map (\<lambda>p. sort_key topX (snd p)) (specLines (sortedTexts tds)))"
proof -
  have "map words (groupedLines tds) =
        map (\<lambda>l. sort_key topX (snd (anchorWords l))) (groupLoop (sortedTexts tds))"
    by (simp add: groupedLines_def words_sortLine anchorWords_def comp_def)
  also have "\<dots> = map (\<lambda>p. sort_key topX (snd p)) (map anchorWords (groupLoop (sortedTexts tds)))"
    by (simp add: comp_def)
  finally show ?thesis by (simp only: groupLoop_specLines)
qed

lemma ties_keep_input_order:
  "filter (cornerAt px py) (concat (map words (groupedLines tds))) = filter (cornerAt px py) tds"
  by (simp only: words_groupedLines_concat filter_concat_sorted concat_specLines sortedTexts_def
      cornerAt_sort_topY)

lemma positionAt_toOutWord: "positionAt px py (toOutWord w) = cornerAt px py w"
  by (simp add: positionAt_def cornerAt_def toOutWord_def)

lemma filter_positionAt:
  "filter (positionAt px py) (map toOutWord ws) = map toOutWord (filter (cornerAt px py) ws)"
  by (simp add: filter_map comp_def positionAt_toOutWord)

lemma concat_out_words:
  "concat (map out_words (organizeTextByLines (Some tds))) =
     map toOutWord (concat (map words (groupedLines tds)))"
proof -
  have "concat (map (\<lambda>l. map toOutWord (words l)) ls) = map toOutWord (concat (map words ls))"
    for ls :: "line list"
    by (induction ls) simp_all
  then show ?thesis by (simp add: organize_Some toOutLine_def comp_def)
qed

lemma ties_keep_input_order_out:
  "filter (positionAt px py) (concat (map out_words (organizeTextByLines (Some tds)))) =
     map toOutWord (filter (cornerAt px py) tds)"
  by (simp only: concat_out_words filter_positionAt ties_keep_input_order)

lemma same_y_one_group:
  assumes "sorted (map topY s)"
  shows "list_all (\<lambda>p. filter (\<lambda>w. topY w = py) (snd p) = [] \<or>
                       filter (\<lambda>w. topY w = py) (snd p) = filter (\<lambda>w. topY w = py) s)
           (specLines s)"
  using assms
proof (induction "length s" arbitrary: s rule: less_induct)
  case less
  show ?case
  proof (cases s)
    case Nil
    then show ?thesis by simp
  next
    case (Cons w r)
    let ?P = "\<lambda>v. topY v \<le> topY w + 20"
    let ?Q = "\<lambda>v. \<not> topY v \<le> topY w + 20"
    let ?Y = "\<lambda>v. topY v = py"
    have e: "specLines s = (topY w, filter ?P s) # specLines (filter ?Q s)"
      using less.prems unfolding Cons by (rule specLines_sorted)
    have "w \<in> set s" "\<not> ?Q w" using Cons by simp_all
    then have shorter: "length (filter ?Q s) < length s" by (rule length_filter_less)
    have srt: "sorted (map topY (filter ?Q s))" using less.prems by (rule sorted_filter)
    note ih = less.hyps [OF shorter srt]
    show ?thesis
    proof (cases "py \<le> topY w + 20")
      case True
      have h: "filter ?Y (filter ?P s) = filter ?Y s"
        using True by (auto simp add: filter_filter intro: filter_cong)
      have "filter ?Y (filter ?Q s) = []"
        using True by (auto simp add: filter_empty_conv)
      then have "list_all (\<lambda>p. filter ?Y (snd p) = []) (specLines (filter ?Q s))"
        using ih by (auto simp add: list_all_iff)
      then show ?thesis unfolding e using h by (auto simp add: list_all_iff)
    next
      case False
      have h: "filter ?Y (filter ?P s) = []"
        using False by (auto simp add: filter_empty_conv)
      have "filter ?Y (filter ?Q s) = filter ?Y s"
        using False by (auto simp add: filter_filter intro: filter_cong)
      then show ?thesis unfolding e using h ih by (auto simp add: list_all_iff)
    qed
  qed
qed

lemma ties_in_one_line:
  assumes "l \<in> set (groupedLines tds)"
  shows "filter (cornerAt px py) (words l) = [] \<or>
         filter (cornerAt px py) (words l) = filter (cornerAt px py) tds"
proof -
  obtain k where k: "k \<in> set (groupLoop (sortedTexts tds))" and l: "l = sortLine k"
    using assms by (auto simp add: groupedLines_def)
  have "anchorWords k \<in> set (specLines (sortedTexts tds))"
    using k groupLoop_specLines [of "sortedTexts tds"] by (metis image_eqI set_map)
  moreover have "sorted (map topY (sortedTexts tds))" by (simp add: sortedTexts_def)
  ultimately have c: "filter (\<lambda>w. topY w = py) (words k) = [] \<or>
        filter (\<lambda>w. topY w = py) (words k) = filter (\<lambda>w. topY w = py) (sortedTexts tds)"
    using same_y_one_group [of "sortedTexts tds" py]
    by (auto simp add: list_all_iff anchorWords_def)
  have w: "filter (cornerAt px py) (words l) = filter (\<lambda>w. topX w = px) (filter (\<lambda>w. topY w = py) (words k))"
    unfolding l words_sortLine cornerAt_sort_topX by (rule filter_cornerAt(2))
  have t: "filter (cornerAt px py) tds =
           filter (\<lambda>w. topX w = px) (filter (\<lambda>w. topY w = py) (sortedTexts tds))"
    unfolding sortedTexts_def sort_key_stable by (rule filter_cornerAt(2))
  show ?thesis
  proof (rule disjE [OF c])
    assume "filter (\<lambda>w. topY w = py) (words k) = []"
    then have "filter (cornerAt px py) (words l) = []" by (simp only: w filter.simps)
    then show ?thesis by (rule disjI1)
  next
    assume "filter (\<lambda>w. topY w = py) (words k) = filter (\<lambda>w. topY w = py) (sortedTexts tds)"
    then have "filter (cornerAt px py) (words l) = filter (cornerAt px py) tds" by (simp only: w t)
    then show ?thesis by (rule disjI2)
  qed
qed

lemma ties_in_one_line_out:
  assumes "l \<in> set (organizeTextByLines (Some tds))"
  shows "filter (positionAt px py) (out_words l) = [] \<or>
         filter (positionAt px py) (out_words l) = map toOutWord (filter (cornerAt px py) tds)"
proof -
  obtain k where k: "k \<in> set (groupedLines tds)" and l: "l = toOutLine k"
    using assms by (auto simp add: organize_Some)
  have "out_words l = map toOutWord (words k)" using l by (simp add: toOutLine_def)
  then have "filter (positionAt px py) (out_words l) = map toOutWord (filter (cornerAt px py) (words k))"
    by (simp only: filter_positionAt)
  then show ?thesis using ties_in_one_line [OF k, of px py] by auto
qed

lemma contents_order_independent:
  assumes "mset ws1 = mset ws2"
    and "\<forall>a \<in> set ws1. \<forall>b \<in> set ws1.
           topX a = topX b \<and> topY a = topY b \<longrightarrow>
           ann_text a = ann_text b \<and> confidence a = confidence b"
  shows "map lineContents (organizeTextByLines (Some ws1)) =
         map lineContents (organizeTextByLines (Some ws2))"
proof (rule lineContents_determined)
  have tie: "toOutWord a = toOutWord b"
    if "a \<in> set (sortedTexts ws1)" "b \<in> set (sortedTexts ws1)"
      "(topX a, topY a) = (topX b, topY b)" for a b
  proof -
    have "a \<in> set ws1" "b \<in> set ws1" using that(1,2) by (simp_all add: sortedTexts_def)
    moreover have "topX a = topX b \<and> topY a = topY b" using that(3) by simp
    ultimately have "ann_text a = ann_text b \<and> confidence a = confidence b"
      using assms(2) by blast
    then show ?thesis using that(3) by (simp add: toOutWord_def)
  qed
  have "map (\<lambda>p. map toOutWord (sort_key topX (snd p))) (specLines (sortedTexts ws1)) =
        map (\<lambda>p. map toOutWord (sort_key topX (snd p))) (specLines (sortedTexts ws2))"
  proof (rule groups_order_independent)
    show "sorted (map topY (sortedTexts ws1))" by (simp add: sortedTexts_def)
    show "sorted (map topY (sortedTexts ws2))" by (simp add: sortedTexts_def)
    show "mset (sortedTexts ws1) = mset (sortedTexts ws2)"
      using assms(1) by (simp add: sortedTexts_def)
  qed (rule tie)
  then show "map out_words (organizeTextByLines (Some ws1)) =
             map out_words (organizeTextByLines (Some ws2))"
    by (simp only: out_words_specLines)
qed

lemma organize_tieWords:
  "organizeTextByLines
     (Some [topLeftWord ''c'' 0 30, topLeftWord ''a'' 20 0, topLeftWord ''b'' 10 15,
            topLeftWord ''a'' 20 0]) =
   [\<lparr> out_lineNumber = 1, out_text = ''b a a'', wordCount = 3,
      out_words = [toOutWord (topLeftWord ''b'' 10 15), toOutWord (topLeftWord ''a'' 20 0),
                   toOutWord (topLeftWord ''a'' 20 0)],
      out_boundingBox = \<lparr> minX = 10, maxX = 20, minY = 0, maxY = 15 \<rparr> \<rparr>,
    \<lparr> out_lineNumber = 2, out_text = ''c'', wordCount = 1,
      out_words = [toOutWord (topLeftWord ''c'' 0 30)],
      out_boundingBox = \<lparr> minX = 0, maxX = 0, minY = 30, maxY = 30 \<rparr> \<rparr>]"
  by (simp add: organizeTextByLines_def groupedLines_def sortedTexts_def groupLoop_def
      groupStep_def newLine_def addWord_def lineThreshold_def sortLine_def toOutLine_def
      Let_def orElse_def coordY_topLeftWord_pos coordX_topLeftWord_pos)

section \<open>The store: one step of the loop\<close>

lemma groupStepStore_Nil:
  "groupStepStore (st, []) r =
     (fst (newArray st [r]),
      [\<lparr> lo_lineNumber = 1, lo_averageY = topY (wordAt st r), lo_words = snd (newArray st [r]),
         lo_text = ann_text (wordAt st r),
         lo_boundingBox = \<lparr> minX = topX (wordAt st r), maxX = topX (wordAt st r),
                            minY = topY (wordAt st r), maxY = topY (wordAt st r) \<rparr> \<rparr>])"
  by (simp add: groupStepStore_def Let_def)

lemma groupStepStore_new:
  "\<bar>topY (wordAt st r) - lo_averageY cur\<bar> > lineThreshold \<Longrightarrow>
   groupStepStore (st, ks @ [cur]) r =
     (fst (newArray st [r]),
      ks @ [cur,
      \<lparr> lo_lineNumber = Suc (Suc (length ks)), lo_averageY = topY (wordAt st r),
         lo_words = snd (newArray st [r]),
         lo_text = ann_text (wordAt st r),
         lo_boundingBox = \<lparr> minX = topX (wordAt st r), maxX = topX (wordAt st r),
                            minY = topY (wordAt st r), maxY = topY (wordAt st r) \<rparr> \<rparr>])"
  by (simp add: groupStepStore_def Let_def)

lemma groupStepStore_add:
  "\<not> \<bar>topY (wordAt st r) - lo_averageY cur\<bar> > lineThreshold \<Longrightarrow>
   groupStepStore (st, ks @ [cur]) r =
     (pushArray st (lo_words cur) r,
      ks @ [cur \<lparr> lo_text := lo_text cur @ '' '' @ ann_text (wordAt st r),
                  lo_boundingBox :=
                    \<lparr> minX = min (minX (lo_boundingBox cur)) (topX (wordAt st r)),
                      maxX = max (maxX (lo_boundingBox cur))
                               (orElse (coordX (wordAt st r) 1) (topX (wordAt st r))),
                      minY = min (minY (lo_boundingBox cur)) (topY (wordAt st r)),
                      maxY = max (maxY (lo_boundingBox cur))
                               (orElse (coordY (wordAt st r) 2) (topY (wordAt st r))) \<rparr> \<rparr>])"
  by (simp add: groupStepStore_def Let_def del: One_nat_def)

lemma newArray_simps:
  "wordAt (fst (newArray st rs)) = wordAt st"
  "nextWord (fst (newArray st rs)) = nextWord st"
  "nextArray (fst (newArray st rs)) = Suc (nextArray st)"
  "snd (newArray st rs) = nextArray st"
  "arrayAt (fst (newArray st rs)) b = (if b = nextArray st then rs else arrayAt st b)"
  by (simp_all add: newArray_def)

lemma pushArray_simps:
  "wordAt (pushArray st a r) = wordAt st"
  "nextWord (pushArray st a r) = nextWord st"
  "nextArray (pushArray st a r) = nextArray st"
  "arrayAt (pushArray st a r) b = (if b = a then arrayAt st a @ [r] else arrayAt st b)"
  by (simp_all add: pushArray_def)

lemma sortArray_simps:
  "wordAt (sortArray key st a) = wordAt st"
  "nextWord (sortArray key st a) = nextWord st"
  "nextArray (sortArray key st a) = nextArray st"
  "arrayAt (sortArray key st a) b =
     (if b = a then sort_key (\<lambda>r. key (wordAt st r)) (arrayAt st a) else arrayAt st b)"
  by (simp_all add: sortArray_def)

lemma absLine_cong:
  "wordAt st' = wordAt st \<Longrightarrow> arrayAt st' (lo_words l) = arrayAt st (lo_words l) \<Longrightarrow>
   absLine st' l = absLine st l"
  by (simp add: absLine_def)

lemma groupStepStore_wordAt: "wordAt (fst (groupStepStore (st, ls) r)) = wordAt st"
proof (cases ls rule: rev_cases)
  case Nil
  then show ?thesis by (simp add: groupStepStore_Nil newArray_simps)
next
  case (snoc ks cur)
  then show ?thesis
    by (cases "\<bar>topY (wordAt st r) - lo_averageY cur\<bar> > lineThreshold")
      (simp_all add: groupStepStore_new groupStepStore_add newArray_simps pushArray_simps)
qed

lemma groupStepStore_nextWord: "nextWord (fst (groupStepStore (st, ls) r)) = nextWord st"
proof (cases ls rule: rev_cases)
  case Nil
  then show ?thesis by (simp add: groupStepStore_Nil newArray_simps)
next
  case (snoc ks cur)
  then show ?thesis
    by (cases "\<bar>topY (wordAt st r) - lo_averageY cur\<bar> > lineThreshold")
      (simp_all add: groupStepStore_new groupStepStore_add newArray_simps pushArray_simps)
qed

lemma groupStepStore_frame:
  assumes "linesFresh B st ls" "b < B"
  shows "arrayAt (fst (groupStepStore (st, ls) r)) b = arrayAt st b"
proof (cases ls rule: rev_cases)
  case Nil
  then show ?thesis using assms by (simp add: groupStepStore_Nil newArray_simps linesFresh_def)
next
  case (snoc ks cur)
  then have "B \<le> lo_words cur" "B \<le> nextArray st" using assms(1) by (simp_all add: linesFresh_def)
  then show ?thesis
    using snoc assms(2)
    by (cases "\<bar>topY (wordAt st r) - lo_averageY cur\<bar> > lineThreshold")
      (simp_all add: groupStepStore_new groupStepStore_add newArray_simps pushArray_simps)
qed

lemma groupStepStore_fresh:
  assumes "linesFresh B st ls"
  shows "linesFresh B (fst (groupStepStore (st, ls) r)) (snd (groupStepStore (st, ls) r))"
proof (cases ls rule: rev_cases)
  case Nil
  then show ?thesis using assms by (simp add: groupStepStore_Nil newArray_simps linesFresh_def)
next
  case (snoc ks cur)
  show ?thesis
  proof (cases "\<bar>topY (wordAt st r) - lo_averageY cur\<bar> > lineThreshold")
    case True
    then show ?thesis
      using snoc assms
      by (auto simp add: groupStepStore_new newArray_simps linesFresh_def list_all_iff)
  next
    case False
    then show ?thesis
      using snoc assms
      by (auto simp add: groupStepStore_add pushArray_simps linesFresh_def list_all_iff)
  qed
qed

lemma groupStepStore_sim:
  assumes "linesFresh B st ls"
  shows "map (absLine (fst (groupStepStore (st, ls) r))) (snd (groupStepStore (st, ls) r)) =
         groupStep (map (absLine st) ls) (wordAt st r)"
proof (cases ls rule: rev_cases)
  case Nil
  then show ?thesis
    by (simp add: groupStepStore_Nil groupStep_Nil newArray_simps absLine_def newLine_def)
next
  case (snoc ks cur)
  have f: "lo_words cur \<notin> lo_words ` set ks" "lo_words cur < nextArray st"
    "\<forall>k \<in> set ks. lo_words k < nextArray st"
    using assms snoc by (simp_all add: linesFresh_def list_all_iff)
  have c: "lo_words cur < nextArray st" by (rule f(2))
  have d: "\<forall>k \<in> set ks. lo_words k \<noteq> lo_words cur \<and> lo_words k < nextArray st"
    using f(1,3) by (metis imageI)
  show ?thesis
  proof (cases "\<bar>topY (wordAt st r) - lo_averageY cur\<bar> > lineThreshold")
    case True
    have old: "absLine (fst (newArray st [r])) k = absLine st k" if "lo_words k < nextArray st" for k
      using that by (intro absLine_cong) (simp_all add: newArray_simps)
    have "map (absLine (fst (newArray st [r]))) ks = map (absLine st) ks"
      using d by (intro map_cong refl old) simp
    moreover have "absLine (fst (newArray st [r])) cur = absLine st cur"
      using c by (rule old)
    moreover have "averageY (absLine st cur) = lo_averageY cur" by (simp add: absLine_def)
    ultimately show ?thesis
      using True snoc
      by (simp add: groupStepStore_new groupStep_snoc newArray_simps newLine_def)
        (simp add: absLine_def newArray_simps)
  next
    case False
    have old: "absLine (pushArray st (lo_words cur) r) k = absLine st k"
      if "lo_words k \<noteq> lo_words cur" for k
      using that by (intro absLine_cong) (simp_all add: pushArray_simps)
    have "map (absLine (pushArray st (lo_words cur) r)) ks = map (absLine st) ks"
      using d by (intro map_cong refl old) simp
    moreover have "averageY (absLine st cur) = lo_averageY cur" by (simp add: absLine_def)
    ultimately show ?thesis
      using False snoc
      by (simp add: groupStepStore_add groupStep_snoc del: One_nat_def)
        (simp add: absLine_def addWord_def pushArray_simps Let_def del: One_nat_def)
  qed
qed

section \<open>The store: the whole function\<close>

lemma foldl_groupStepStore:
  assumes "linesFresh B st ls"
  shows "linesFresh B (fst (foldl groupStepStore (st, ls) rs)) (snd (foldl groupStepStore (st, ls) rs)) \<and>
         wordAt (fst (foldl groupStepStore (st, ls) rs)) = wordAt st \<and>
         nextWord (fst (foldl groupStepStore (st, ls) rs)) = nextWord st \<and>
         (\<forall>b < B. arrayAt (fst (foldl groupStepStore (st, ls) rs)) b = arrayAt st b) \<and>
         map (absLine (fst (foldl groupStepStore (st, ls) rs))) (snd (foldl groupStepStore (st, ls) rs)) =
           foldl groupStep (map (absLine st) ls) (map (wordAt st) rs)"
  using assms
proof (induction rs arbitrary: st ls)
  case Nil
  then show ?case by simp
next
  case (Cons r rs)
  obtain st1 ls1 where s1: "groupStepStore (st, ls) r = (st1, ls1)" by (cases "groupStepStore (st, ls) r")
  have fresh1: "linesFresh B st1 ls1"
    using groupStepStore_fresh [OF Cons.prems, of r] by (simp add: s1)
  have w1: "wordAt st1 = wordAt st" using groupStepStore_wordAt [of st ls r] by (simp add: s1)
  have n1: "nextWord st1 = nextWord st" using groupStepStore_nextWord [of st ls r] by (simp add: s1)
  have f1: "\<forall>b < B. arrayAt st1 b = arrayAt st b"
    using groupStepStore_frame [OF Cons.prems, of _ r] by (simp add: s1)
  have m1: "map (absLine st1) ls1 = groupStep (map (absLine st) ls) (wordAt st r)"
    using groupStepStore_sim [OF Cons.prems, of r] by (simp add: s1)
  show ?case
    using Cons.IH [OF fresh1, of ] w1 n1 f1 m1 by (simp add: s1)
qed

lemma sortLinesStore_wordAt: "wordAt (fst (sortLinesStore st ls)) = wordAt st"
  by (induction ls arbitrary: st) (simp_all add: Let_def sortArray_simps)

lemma sortLinesStore_nextWord: "nextWord (fst (sortLinesStore st ls)) = nextWord st"
  by (induction ls arbitrary: st) (simp_all add: Let_def sortArray_simps)

lemma sortLinesStore_frame:
  "b \<notin> lo_words ` set ls \<Longrightarrow> arrayAt (fst (sortLinesStore st ls)) b = arrayAt st b"
  by (induction ls arbitrary: st) (simp_all add: Let_def sortArray_simps)

lemma sortLine_absLine:
  assumes "wordAt st' = wordAt st"
    and "arrayAt st' (lo_words l) = sort_key (\<lambda>r. topX (wordAt st r)) (arrayAt st (lo_words l))"
  shows "absLine st'
           (l \<lparr> lo_text := joinSpace (map (\<lambda>r. ann_text (wordAt st r))
                   (sort_key (\<lambda>r. topX (wordAt st r)) (arrayAt st (lo_words l)))) \<rparr>) =
         sortLine (absLine st l)"
  using assms by (simp add: absLine_def sortLine_def Let_def sort_key_map comp_def)

lemma sortLinesStore_sim:
  "distinct (map lo_words ls) \<Longrightarrow>
   map (absLine (fst (sortLinesStore st ls))) (snd (sortLinesStore st ls)) =
     map sortLine (map (absLine st) ls)"
proof (induction ls arbitrary: st)
  case Nil
  show ?case by simp
next
  case (Cons l ls)
  let ?st1 = "sortArray topX st (lo_words l)"
  let ?l1 = "l \<lparr> lo_text := joinSpace (map (\<lambda>r. ann_text (wordAt st r))
                   (sort_key (\<lambda>r. topX (wordAt st r)) (arrayAt st (lo_words l)))) \<rparr>"
  have notin: "lo_words l \<notin> lo_words ` set ls" and dist: "distinct (map lo_words ls)"
    using Cons.prems by simp_all
  have e: "sortLinesStore st (l # ls) =
           (fst (sortLinesStore ?st1 ls), ?l1 # snd (sortLinesStore ?st1 ls))"
    by (simp add: Let_def sortArray_simps)
  have a: "arrayAt (fst (sortLinesStore ?st1 ls)) (lo_words l) =
           sort_key (\<lambda>r. topX (wordAt st r)) (arrayAt st (lo_words l))"
    using notin by (simp add: sortLinesStore_frame sortArray_simps)
  have w: "wordAt (fst (sortLinesStore ?st1 ls)) = wordAt st"
    by (simp add: sortLinesStore_wordAt sortArray_simps)
  have h: "absLine (fst (sortLinesStore ?st1 ls)) ?l1 = sortLine (absLine st l)"
    using w a by (rule sortLine_absLine)
  have "absLine ?st1 k = absLine st k" if "k \<in> set ls" for k
  proof (rule absLine_cong)
    show "wordAt ?st1 = wordAt st" by (simp add: sortArray_simps)
    have "lo_words k \<noteq> lo_words l" using that notin by (metis imageI)
    then show "arrayAt ?st1 (lo_words k) = arrayAt st (lo_words k)" by (simp add: sortArray_simps)
  qed
  then have "map (absLine ?st1) ls = map (absLine st) ls" by (intro map_cong refl)
  then have t: "map (absLine (fst (sortLinesStore ?st1 ls))) (snd (sortLinesStore ?st1 ls)) =
                map sortLine (map (absLine st) ls)"
    using Cons.IH [OF dist, of ?st1] by simp
  show ?case unfolding e using h t by simp
qed

lemma toOutLineStore_absLine: "toOutLineStore st l = toOutLine (absLine st l)"
  by (simp add: toOutLineStore_def toOutLine_def absLine_def)


lemma organizeStore_run:
  assumes "a < nextArray st"
  shows "snd (organizeTextByLinesStore st (Some a)) =
           organizeTextByLines (Some (map (wordAt st) (arrayAt st a))) \<and>
         wordAt (fst (organizeTextByLinesStore st (Some a))) = wordAt st \<and>
         nextWord (fst (organizeTextByLinesStore st (Some a))) = nextWord st \<and>
         (\<forall>b < nextArray st. arrayAt (fst (organizeTextByLinesStore st (Some a))) b = arrayAt st b)"
proof (cases "arrayAt st a = []")
  case True
  then show ?thesis by (simp add: organizeTextByLinesStore_def organizeTextByLines_def)
next
  case False
  let ?s = "nextArray st"
  let ?st1 = "fst (sliceArray st a)"
  let ?st2 = "sortArray topY ?st1 ?s"
  let ?g = "foldl groupStepStore (?st2, []) (arrayAt ?st2 ?s)"
  let ?r = "sortLinesStore (fst ?g) (snd ?g)"
  have run: "organizeTextByLinesStore st (Some a) = (fst ?r, map (toOutLineStore (fst ?r)) (snd ?r))"
    using False by (simp add: organizeTextByLinesStore_def Let_def sliceArray_def newArray_simps)
  have w2: "wordAt ?st2 = wordAt st"
    by (simp add: sortArray_simps sliceArray_def newArray_simps)
  have n2: "nextWord ?st2 = nextWord st"
    by (simp add: sortArray_simps sliceArray_def newArray_simps)
  have a2: "arrayAt ?st2 ?s = sort_key (\<lambda>r. topY (wordAt st r)) (arrayAt st a)"
    by (simp add: sortArray_simps sliceArray_def newArray_simps)
  have f2: "\<forall>b < ?s. arrayAt ?st2 b = arrayAt st b"
    by (simp add: sortArray_simps sliceArray_def newArray_simps)
  have fresh2: "linesFresh (Suc ?s) ?st2 []"
    by (simp add: linesFresh_def sortArray_simps sliceArray_def newArray_simps)
  note g = foldl_groupStepStore [OF fresh2, of "arrayAt ?st2 ?s"]
  have sorted_words: "map (wordAt ?st2) (arrayAt ?st2 ?s) = sortedTexts (map (wordAt st) (arrayAt st a))"
    by (simp only: w2 a2 sortedTexts_def sort_key_map)
  have gl: "map (absLine (fst ?g)) (snd ?g) = groupLoop (sortedTexts (map (wordAt st) (arrayAt st a)))"
    using g sorted_words by (simp add: groupLoop_def)
  have dist: "distinct (map lo_words (snd ?g))" and above: "\<forall>l \<in> set (snd ?g). Suc ?s \<le> lo_words l"
    using g by (simp_all add: linesFresh_def list_all_iff)
  have sim: "map (absLine (fst ?r)) (snd ?r) = map sortLine (map (absLine (fst ?g)) (snd ?g))"
    using dist by (rule sortLinesStore_sim)
  have out: "map (toOutLineStore (fst ?r)) (snd ?r) = map toOutLine (map (absLine (fst ?r)) (snd ?r))"
    by (simp add: toOutLineStore_absLine)
  have res: "snd (organizeTextByLinesStore st (Some a)) =
             organizeTextByLines (Some (map (wordAt st) (arrayAt st a)))"
    unfolding run organize_Some groupedLines_def using out sim gl by simp
  have wr: "wordAt (fst ?r) = wordAt st"
    using g w2 by (simp add: sortLinesStore_wordAt)
  have nr: "nextWord (fst ?r) = nextWord st"
    using g n2 by (simp add: sortLinesStore_nextWord)
  have fr: "arrayAt (fst ?r) b = arrayAt st b" if "b < ?s" for b
  proof -
    have "b \<notin> lo_words ` set (snd ?g)" using above that by auto
    then have "arrayAt (fst ?r) b = arrayAt (fst ?g) b" by (rule sortLinesStore_frame)
    also have "\<dots> = arrayAt ?st2 b" using g that by simp
    also have "\<dots> = arrayAt st b" using f2 that by simp
    finally show ?thesis .
  qed
  show ?thesis unfolding run using res wr nr fr by (simp add: run)
qed

lemma newWords_read: "map (wordAt (fst (newWords st ws))) (snd (newWords st ws)) = ws"
  by (rule nth_equalityI) (simp_all add: newWords_def)

lemma detectTextStore_detectText: "detectTextStore st env response now = detectText env response now"
proof (cases "unset (GOOGLE_CLOUD_API_KEY env) \<and> unset (GOOGLE_APPLICATION_CREDENTIALS env)")
  case True
  then show ?thesis by (simp add: detectTextStore_def detectText_def)
next
  case mock: False
  show ?thesis
  proof (cases response)
    case (Inl e)
    then show ?thesis using mock by (auto simp add: detectTextStore_def detectText_def)
  next
    case (Inr result)
    show ?thesis
    proof (cases "textAnnotations result")
      case None
      then show ?thesis using mock Inr by (auto simp add: detectTextStore_def detectText_def)
    next
      case (Some detections)
      show ?thesis
      proof (cases "detections = []")
        case True
        then show ?thesis using mock Inr Some by (auto simp add: detectTextStore_def detectText_def)
      next
        case False
        let ?ws = "map toTextDetail (drop 1 detections)"
        let ?nw = "newWords st ?ws"
        let ?na = "newArray (fst ?nw) (snd ?nw)"
        let ?td = "snd ?na"
        let ?org = "organizeTextByLinesStore (fst ?na) (Some ?td)"
        have lt: "?td < nextArray (fst ?na)" by (simp add: newArray_simps)
        have arr: "arrayAt (fst ?na) ?td = snd ?nw" by (simp add: newArray_simps)
        have wd: "wordAt (fst ?na) = wordAt (fst ?nw)" by (simp add: newArray_simps)
        have before: "map (wordAt (fst ?na)) (arrayAt (fst ?na) ?td) = ?ws"
          unfolding arr wd by (rule newWords_read)
        note run = organizeStore_run [OF lt]
        have r1: "snd ?org = organizeTextByLines (Some ?ws)" using run before by simp
        have r2: "wordAt (fst ?org) = wordAt (fst ?na)" using run by simp
        have r3: "arrayAt (fst ?org) ?td = arrayAt (fst ?na) ?td" using run lt by blast
        have after: "map (wordAt (fst ?org)) (arrayAt (fst ?org) ?td) = ?ws"
          unfolding r2 r3 by (rule before)
        have len: "length (arrayAt (fst ?org) ?td) = length ?ws"
          using after by (metis length_map)
        show ?thesis
          using mock Inr Some False
          by (auto simp add: detectTextStore_def detectText_def Let_def r1 after len
              simp del: length_map One_nat_def)
      qed
    qed
  qed
qed

lemma organize_exampleStore:
  "organizeTextByLines (Some [topLeftWord ''b'' 10 15, topLeftWord ''a'' 20 0]) =
     [\<lparr> out_lineNumber = 1, out_text = ''b a'', wordCount = 2,
        out_words = [toOutWord (topLeftWord ''b'' 10 15), toOutWord (topLeftWord ''a'' 20 0)],
        out_boundingBox = \<lparr> minX = 10, maxX = 20, minY = 0, maxY = 15 \<rparr> \<rparr>]"
  by (simp add: organizeTextByLines_def groupedLines_def sortedTexts_def groupLoop_def groupStep_def
      newLine_def addWord_def lineThreshold_def sortLine_def toOutLine_def Let_def orElse_def
      coordY_topLeftWord_pos coordX_topLeftWord_pos)

section \<open>Claims about organizeTextByLines\<close>

text \<open>
  C8. For every argument, the \<open>lineNumber\<close> values of the returned lines are exactly
  1, 2, ..., n in output order: contiguous from 1, without gaps or repeats, in the
  order in which the lines were created.
\<close>

theorem lineNumbers_contiguous:
  "map out_lineNumber (organizeTextByLines textDetails) =
     [1..<Suc (length (organizeTextByLines textDetails))]"
  by (rule lineNumbers_of_organize)

text \<open>
  C2. Every input word is in exactly one line: the words of the lines, taken together,
  are the input words, each as often as it occurs in the input and no others. The words
  of the returned lines are the \<open>{ text, confidence, position }\<close> objects made from them,
  line by line, and the word counts add up to the length of the input.
\<close>

theorem words_partition:
  "mset (concat (map words (groupedLines tds))) = mset tds \<and>
   map out_words (organizeTextByLines (Some tds)) =
     map (\<lambda>l. map toOutWord (words l)) (groupedLines tds) \<and>
   mset (concat (map out_words (organizeTextByLines (Some tds)))) =
     image_mset toOutWord (mset tds) \<and>
   sum_list (map wordCount (organizeTextByLines (Some tds))) = length tds"
proof -
  have a: "mset (concat (map words (groupedLines tds))) = mset tds"
    by (rule words_groupedLines)
  have b: "map out_words (organizeTextByLines (Some tds)) =
           map (\<lambda>l. map toOutWord (words l)) (groupedLines tds)"
    by (simp add: organize_Some toOutLine_def)
  have "concat (map (\<lambda>l. map toOutWord (words l)) ls) =
        map toOutWord (concat (map words ls))" for ls :: "line list"
    by (induction ls) simp_all
  then have c: "mset (concat (map out_words (organizeTextByLines (Some tds)))) =
                image_mset toOutWord (mset tds)"
    using a b by (metis mset_map)
  have "sum_list (map wordCount (map toOutLine ls)) = length (concat (map words ls))"
    for ls :: "line list"
    by (induction ls) (simp_all add: toOutLine_def)
  then have d: "sum_list (map wordCount (organizeTextByLines (Some tds))) = length tds"
    using a by (metis organize_Some size_mset)
  show ?thesis using a b c d by blast
qed

text \<open>
  C9. Three words A (y = 10, x = 50), B (y = 12, x = 10) and C (y = 60, x = 5), whatever
  their other fields, give exactly two lines: line 1 with the text "B A" and line 2 with
  the text "C".
\<close>

theorem example_three_words:
  assumes "ann_text a = ''A''" "topY a = 10" "topX a = 50"
      and "ann_text b = ''B''" "topY b = 12" "topX b = 10"
      and "ann_text c = ''C''" "topY c = 60" "topX c = 5"
  shows "map (\<lambda>l. (out_lineNumber l, out_text l)) (organizeTextByLines (Some [a, b, c])) =
           [(1, ''B A''), (2, ''C'')]"
  using assms by (simp add: run_defs)

theorem example_three_words_witness:
  "ann_text (topLeftWord ''A'' 50 10) = ''A'' \<and> topY (topLeftWord ''A'' 50 10) = 10 \<and>
   topX (topLeftWord ''A'' 50 10) = 50 \<and>
   ann_text (topLeftWord ''B'' 10 12) = ''B'' \<and> topY (topLeftWord ''B'' 10 12) = 12 \<and>
   topX (topLeftWord ''B'' 10 12) = 10 \<and>
   ann_text (topLeftWord ''C'' 5 60) = ''C'' \<and> topY (topLeftWord ''C'' 5 60) = 60 \<and>
   topX (topLeftWord ''C'' 5 60) = 5 \<and>
   map (\<lambda>l. (out_lineNumber l, out_text l))
     (organizeTextByLines
        (Some [topLeftWord ''A'' 50 10, topLeftWord ''B'' 10 12, topLeftWord ''C'' 5 60])) =
     [(1, ''B A''), (2, ''C'')]"
  using example_three_words
    [of "topLeftWord ''A'' 50 10" "topLeftWord ''B'' 10 12" "topLeftWord ''C'' 5 60"]
  by simp

text \<open>
  C1. The words are first sorted ascending by top-left y (a stable sort that keeps all the
  words), then walked in that order by the rule of the specification: the first word
  opens a line anchored at its y, a later word joins the current line exactly when its y
  is within 20 of the anchor and otherwise opens the next line, anchored at its own y.
  The anchor of every line is the y of the word that opened it, every word of a line is
  within 20 of that anchor, and the word that opens the next line is more than 20 away
  from the anchor of the line before. The returned lines hold these groups, each sorted
  by x.
\<close>

theorem grouping_rule:
  "sorted (map topY (sortedTexts tds)) \<and>
   mset (sortedTexts tds) = mset tds \<and>
   (\<forall>k. filter (\<lambda>w. topY w = k) (sortedTexts tds) = filter (\<lambda>w. topY w = k) tds) \<and>
   map anchorWords (groupLoop (sortedTexts tds)) = specLines (sortedTexts tds) \<and>
   map out_words (organizeTextByLines (Some tds)) =
     map (\<lambda>p. map toOutWord (sort_key topX (snd p))) (specLines (sortedTexts tds)) \<and>
   (\<forall>p \<in> set (specLines (sortedTexts tds)).
      snd p \<noteq> [] \<and> fst p = topY (hd (snd p)) \<and> (\<forall>w \<in> set (snd p). \<bar>topY w - fst p\<bar> \<le> 20)) \<and>
   successively (\<lambda>p q. \<bar>fst q - fst p\<bar> > 20) (specLines (sortedTexts tds))"
proof (intro conjI)
  show "sorted (map topY (sortedTexts tds))" by (simp add: sortedTexts_def)
  show "mset (sortedTexts tds) = mset tds" by (simp add: sortedTexts_def)
  show "\<forall>k. filter (\<lambda>w. topY w = k) (sortedTexts tds) = filter (\<lambda>w. topY w = k) tds"
    by (simp add: sortedTexts_def sort_key_stable)
  show "map anchorWords (groupLoop (sortedTexts tds)) = specLines (sortedTexts tds)"
    by (rule groupLoop_specLines)
  show "map out_words (organizeTextByLines (Some tds)) =
     map (\<lambda>p. map toOutWord (sort_key topX (snd p))) (specLines (sortedTexts tds))"
    by (rule out_words_specLines)
  show "\<forall>p \<in> set (specLines (sortedTexts tds)).
      snd p \<noteq> [] \<and> fst p = topY (hd (snd p)) \<and> (\<forall>w \<in> set (snd p). \<bar>topY w - fst p\<bar> \<le> 20)"
    using specLines_anchored [of "sortedTexts tds"]
    by (auto simp add: list_all_iff anchored_def)
  show "successively (\<lambda>p q. \<bar>fst q - fst p\<bar> > 20) (specLines (sortedTexts tds))"
    by (rule specLines_apart)
qed


theorem grouping_rule_witness:
  "specLines (sortedTexts [topLeftWord ''c'' 0 30, topLeftWord ''a'' 20 0, topLeftWord ''b'' 10 15]) =
     [(0, [topLeftWord ''a'' 20 0, topLeftWord ''b'' 10 15]), (30, [topLeftWord ''c'' 0 30])] \<and>
   map out_words
     (organizeTextByLines (Some [topLeftWord ''c'' 0 30, topLeftWord ''a'' 20 0, topLeftWord ''b'' 10 15])) =
     [[toOutWord (topLeftWord ''b'' 10 15), toOutWord (topLeftWord ''a'' 20 0)],
      [toOutWord (topLeftWord ''c'' 0 30)]] \<and>
   \<bar>topY (topLeftWord ''b'' 10 15) - 0\<bar> \<le> 20 \<and> \<bar>(30::int) - 0\<bar> > 20"
proof -
  have s: "sortedTexts [topLeftWord ''c'' 0 30, topLeftWord ''a'' 20 0, topLeftWord ''b'' 10 15] =
           [topLeftWord ''a'' 20 0, topLeftWord ''b'' 10 15, topLeftWord ''c'' 0 30]"
    by (simp add: sortedTexts_def)
  have w: "specLines [topLeftWord ''a'' 20 0, topLeftWord ''b'' 10 15, topLeftWord ''c'' 0 30] =
           [(0, [topLeftWord ''a'' 20 0, topLeftWord ''b'' 10 15]), (30, [topLeftWord ''c'' 0 30])]"
    by simp
  show ?thesis
    using grouping_rule [of "[topLeftWord ''c'' 0 30, topLeftWord ''a'' 20 0, topLeftWord ''b'' 10 15]"]
    unfolding s w by simp
qed

text \<open>
  C3. In every returned line the words are in non-decreasing order of their top-left x,
  and the text of the line is the texts of its words, in that order, joined by single
  spaces.
\<close>

theorem words_left_to_right:
  "\<forall>l \<in> set (organizeTextByLines textDetails).
     sorted (map (\<lambda>w. pos_x (word_position w)) (out_words l)) \<and>
     out_text l = joinSpace (map word_text (out_words l))"
proof (cases textDetails)
  case None
  then show ?thesis by (simp add: organize_None)
next
  case (Some tds)
  have "sorted (map (\<lambda>w. pos_x (word_position w)) (out_words (toOutLine (sortLine l)))) \<and>
        out_text (toOutLine (sortLine l)) =
          joinSpace (map word_text (out_words (toOutLine (sortLine l))))" for l
    by (simp add: toOutLine_def words_sortLine line_text_sortLine pos_x_toOutWord
        joinSpace_toOutWord del: map_map)
  then show ?thesis
    using Some by (auto simp add: organize_Some groupedLines_def)
qed

theorem words_left_to_right_witness:
  "sorted [pos_x (word_position (toOutWord (topLeftWord ''B'' 10 12))),
           pos_x (word_position (toOutWord (topLeftWord ''A'' 50 10)))] \<and>
   ''B A'' = joinSpace [word_text (toOutWord (topLeftWord ''B'' 10 12)),
                        word_text (toOutWord (topLeftWord ''A'' 50 10))]"
  using words_left_to_right [of "Some [topLeftWord ''A'' 50 10, topLeftWord ''B'' 10 12, topLeftWord ''C'' 5 60]"]
  unfolding organize_exampleWords by simp

text \<open>
  C4 (the code differs). The bounding box of a line is started from the top-left corner
  of the word that opens the line alone; the opposite corner is read only for the words
  that join later. A line of one word with the box (0, 0)-(100, 20) gets the box
  (0, 0, 0, 0), where the covering box is (0, 100, 0, 20); of two words on one line, the
  extent of the opening word is lost.
\<close>

theorem boundingBox_misses_opening_word:
  "map out_boundingBox (organizeTextByLines (Some [boxWord ''w'' 0 0 100 20])) =
     [\<lparr> minX = 0, maxX = 0, minY = 0, maxY = 0 \<rparr>] \<and>
   coveringBox [boxWord ''w'' 0 0 100 20] = \<lparr> minX = 0, maxX = 100, minY = 0, maxY = 20 \<rparr> \<and>
   map out_boundingBox
     (organizeTextByLines (Some [boxWord ''u'' 50 0 90 20, boxWord ''v'' 0 0 40 20])) =
     [\<lparr> minX = 0, maxX = 50, minY = 0, maxY = 20 \<rparr>] \<and>
   coveringBox [boxWord ''u'' 50 0 90 20, boxWord ''v'' 0 0 40 20] =
     \<lparr> minX = 0, maxX = 90, minY = 0, maxY = 20 \<rparr>"
  by (simp add: run_defs coords_boxWord coveringBox_def wordRight_def wordBottom_def orElse_def)

text \<open>
  C6, as stated, fails for the confidence: \<open>organizeTextByLines\<close> copies the confidence
  of a word as it is, so a word without confidence comes out without confidence, not
  with confidence 0.
\<close>

theorem missing_confidence_counterexample:
  "map (\<lambda>l. map word_confidence (out_words l))
     (organizeTextByLines (Some [\<lparr> ann_text = ''w'', confidence = None, boundingBox = None \<rparr>])) =
     [[None]] \<and>
   organizeTextByLines
     (Some (map fillConfidence [\<lparr> ann_text = ''w'', confidence = None, boundingBox = None \<rparr>])) \<noteq>
   organizeTextByLines (Some [\<lparr> ann_text = ''w'', confidence = None, boundingBox = None \<rparr>])"
  by (simp add: organize_bare fillConfidence_def)

text \<open>
  C6, amended. \<open>organizeTextByLines\<close> is defined on every argument: \<open>null\<close> and the empty
  list give the empty list; a list of annotations, whatever is missing from their
  bounding boxes, gives the lines that the same words give with every missing coordinate
  set to 0. Every line has at least one word, its word count is the number of its words,
  and the line numbers are 1, 2, ..., n. The confidence is copied unchanged; it is
  \<open>detectText\<close> that reads a missing score as 0, so that no word of its \<open>details\<close> lacks a
  confidence. A single word with no bounding box gives one line that holds this word and
  has the box (0, 0, 0, 0).
\<close>

theorem degrades_gracefully:
  "organizeTextByLines None = [] \<and>
   organizeTextByLines (Some []) = [] \<and>
   organizeTextByLines (Some (map fillCoordinates tds)) = organizeTextByLines (Some tds) \<and>
   map (\<lambda>l. map word_confidence (out_words l)) (organizeTextByLines (Some tds)) =
     map (\<lambda>l. map confidence (words l)) (groupedLines tds) \<and>
   (\<forall>l \<in> set (organizeTextByLines (Some tds)).
      wordCount l = length (out_words l) \<and> 0 < wordCount l) \<and>
   map out_lineNumber (organizeTextByLines (Some tds)) =
     [1..<Suc (length (organizeTextByLines (Some tds)))] \<and>
   organizeTextByLines (Some [\<lparr> ann_text = s, confidence = c, boundingBox = None \<rparr>]) =
     [\<lparr> out_lineNumber = 1, out_text = s, wordCount = 1,
        out_words = [\<lparr> word_text = s, word_confidence = c,
                       word_position = \<lparr> pos_x = 0, pos_y = 0 \<rparr> \<rparr>],
        out_boundingBox = \<lparr> minX = 0, maxX = 0, minY = 0, maxY = 0 \<rparr> \<rparr>] \<and>
   (\<forall>d \<in> set (details (detectText env response now)). confidence d \<noteq> None)"
proof (intro conjI)
  show "organizeTextByLines None = []" by (rule organize_None)
  show "organizeTextByLines (Some []) = []" by (simp add: organizeTextByLines_def)
  show "organizeTextByLines (Some (map fillCoordinates tds)) = organizeTextByLines (Some tds)"
    by (rule organize_map_sameReadings) (simp add: sameReadings_fillCoordinates)
  show "map (\<lambda>l. map word_confidence (out_words l)) (organizeTextByLines (Some tds)) =
     map (\<lambda>l. map confidence (words l)) (groupedLines tds)"
    by (simp add: organize_Some toOutLine_def toOutWord_def comp_def)
  show "\<forall>l \<in> set (organizeTextByLines (Some tds)).
      wordCount l = length (out_words l) \<and> 0 < wordCount l"
    using wordCount_organize by blast
  show "map out_lineNumber (organizeTextByLines (Some tds)) =
     [1..<Suc (length (organizeTextByLines (Some tds)))]"
    by (rule lineNumbers_of_organize)
  show "organizeTextByLines (Some [\<lparr> ann_text = s, confidence = c, boundingBox = None \<rparr>]) =
     [\<lparr> out_lineNumber = 1, out_text = s, wordCount = 1,
        out_words = [\<lparr> word_text = s, word_confidence = c,
                       word_position = \<lparr> pos_x = 0, pos_y = 0 \<rparr> \<rparr>],
        out_boundingBox = \<lparr> minX = 0, maxX = 0, minY = 0, maxY = 0 \<rparr> \<rparr>]"
    by (rule organize_bare)
  show "\<forall>d \<in> set (details (detectText env response now)). confidence d \<noteq> None"
    by (rule confidence_details)
qed

theorem degrades_gracefully_witness:
  "organizeTextByLines (Some (map fillCoordinates [halfWord])) =
     [\<lparr> out_lineNumber = 1, out_text = ''h'', wordCount = 1,
        out_words = [\<lparr> word_text = ''h'', word_confidence = None,
                       word_position = \<lparr> pos_x = 0, pos_y = 7 \<rparr> \<rparr>],
        out_boundingBox = \<lparr> minX = 0, maxX = 0, minY = 7, maxY = 7 \<rparr> \<rparr>] \<and>
   map confidence
     (details (detectText \<lparr> GOOGLE_CLOUD_API_KEY = Some ''k'', GOOGLE_APPLICATION_CREDENTIALS = None \<rparr>
        (Inr \<lparr> textAnnotations = Some
           [\<lparr> description = ''h'', score = None, boundingPoly = None \<rparr>,
            \<lparr> description = ''h'', score = None, boundingPoly = None \<rparr>] \<rparr>) ''t'')) = [Some 0]"
  using degrades_gracefully [of "[halfWord]" "''x''" None
      "\<lparr> GOOGLE_CLOUD_API_KEY = Some ''k'', GOOGLE_APPLICATION_CREDENTIALS = None \<rparr>"
      "Inr \<lparr> textAnnotations = Some
           [\<lparr> description = ''h'', score = None, boundingPoly = None \<rparr>,
            \<lparr> description = ''h'', score = None, boundingPoly = None \<rparr>] \<rparr>" "''t''"]
  unfolding organize_halfWord
  by (simp add: detectText_def unset_def toTextDetail_def scoreOrZero_def Let_def)

text \<open>
  C7, as stated, fails. Two words with the same top-left corner keep their input order
  (both sorts are stable), so the text of their line depends on the order of the input;
  and the bounding box of a line depends on which of two words with the same y comes
  first, since only the word that opens the line loses its extent.
\<close>

theorem order_dependent_counterexample:
  "mset [topLeftWord ''A'' 0 0, topLeftWord ''B'' 0 0] =
     mset [topLeftWord ''B'' 0 0, topLeftWord ''A'' 0 0] \<and>
   map out_text (organizeTextByLines (Some [topLeftWord ''A'' 0 0, topLeftWord ''B'' 0 0])) =
     [''A B''] \<and>
   map out_text (organizeTextByLines (Some [topLeftWord ''B'' 0 0, topLeftWord ''A'' 0 0])) =
     [''B A''] \<and>
   mset [boxWord ''u'' 50 0 90 20, boxWord ''v'' 0 0 40 20] =
     mset [boxWord ''v'' 0 0 40 20, boxWord ''u'' 50 0 90 20] \<and>
   map out_boundingBox
     (organizeTextByLines (Some [boxWord ''u'' 50 0 90 20, boxWord ''v'' 0 0 40 20])) =
     [\<lparr> minX = 0, maxX = 50, minY = 0, maxY = 20 \<rparr>] \<and>
   map out_boundingBox
     (organizeTextByLines (Some [boxWord ''v'' 0 0 40 20, boxWord ''u'' 50 0 90 20])) =
     [\<lparr> minX = 0, maxX = 90, minY = 0, maxY = 20 \<rparr>]"
  by (simp add: run_defs coords_boxWord orElse_def)

text \<open>
  C7, amended. For two lists that are permutations of each other, the results have the
  same number of lines with the same line numbers and word counts, and every line holds
  the same words, as a multiset, in both. In every result, the words that share their
  top-left x and y are in one line and stand there in the order of the input. When any
  two words of the input that share their top-left x and y have the same text and
  confidence, the two results have the same lines in the same order with the same
  contents: line number, text, word count and words in order. (The bounding boxes are
  left out.)
\<close>

theorem order_independent:
  assumes "mset ws1 = mset ws2"
  shows "map out_lineNumber (organizeTextByLines (Some ws1)) =
           map out_lineNumber (organizeTextByLines (Some ws2)) \<and>
         map wordCount (organizeTextByLines (Some ws1)) =
           map wordCount (organizeTextByLines (Some ws2)) \<and>
         map (\<lambda>l. mset (words l)) (groupedLines ws1) =
           map (\<lambda>l. mset (words l)) (groupedLines ws2) \<and>
         map (\<lambda>l. mset (out_words l)) (organizeTextByLines (Some ws1)) =
           map (\<lambda>l. mset (out_words l)) (organizeTextByLines (Some ws2)) \<and>
         (\<forall>px py.
            filter (positionAt px py) (concat (map out_words (organizeTextByLines (Some ws1)))) =
              map toOutWord (filter (cornerAt px py) ws1)) \<and>
         (\<forall>px py. \<forall>l \<in> set (organizeTextByLines (Some ws1)).
            filter (positionAt px py) (out_words l) = [] \<or>
            filter (positionAt px py) (out_words l) =
              map toOutWord (filter (cornerAt px py) ws1)) \<and>
         ((\<forall>a \<in> set ws1. \<forall>b \<in> set ws1.
             topX a = topX b \<and> topY a = topY b \<longrightarrow>
             ann_text a = ann_text b \<and> confidence a = confidence b) \<longrightarrow>
          map lineContents (organizeTextByLines (Some ws1)) =
            map lineContents (organizeTextByLines (Some ws2)))"
proof (intro conjI allI ballI impI)
  show "map out_lineNumber (organizeTextByLines (Some ws1)) =
        map out_lineNumber (organizeTextByLines (Some ws2))"
    using assms by (rule counts_order_independent(1))
  show "map wordCount (organizeTextByLines (Some ws1)) =
        map wordCount (organizeTextByLines (Some ws2))"
    using assms by (rule counts_order_independent(2))
  show "map (\<lambda>l. mset (words l)) (groupedLines ws1) =
        map (\<lambda>l. mset (words l)) (groupedLines ws2)"
    using assms by (rule grouping_order_independent)
  show "map (\<lambda>l. mset (out_words l)) (organizeTextByLines (Some ws1)) =
        map (\<lambda>l. mset (out_words l)) (organizeTextByLines (Some ws2))"
    using assms by (rule counts_order_independent(3))
next
  fix px py
  show "filter (positionAt px py) (concat (map out_words (organizeTextByLines (Some ws1)))) =
        map toOutWord (filter (cornerAt px py) ws1)"
    by (rule ties_keep_input_order_out)
next
  fix px py l
  assume "l \<in> set (organizeTextByLines (Some ws1))"
  then show "filter (positionAt px py) (out_words l) = [] \<or>
             filter (positionAt px py) (out_words l) =
               map toOutWord (filter (cornerAt px py) ws1)"
    by (rule ties_in_one_line_out)
next
  assume "\<forall>a \<in> set ws1. \<forall>b \<in> set ws1.
            topX a = topX b \<and> topY a = topY b \<longrightarrow>
            ann_text a = ann_text b \<and> confidence a = confidence b"
  with assms show "map lineContents (organizeTextByLines (Some ws1)) =
                   map lineContents (organizeTextByLines (Some ws2))"
    by (rule contents_order_independent)
qed

theorem order_independent_witness:
  "mset [topLeftWord ''c'' 0 30, topLeftWord ''a'' 20 0, topLeftWord ''b'' 10 15,
         topLeftWord ''a'' 20 0] =
     mset [topLeftWord ''a'' 20 0, topLeftWord ''b'' 10 15, topLeftWord ''a'' 20 0,
           topLeftWord ''c'' 0 30] \<and>
   map lineContents
     (organizeTextByLines
        (Some [topLeftWord ''a'' 20 0, topLeftWord ''b'' 10 15, topLeftWord ''a'' 20 0,
               topLeftWord ''c'' 0 30])) =
     [(1, ''b a a'', 3,
       [toOutWord (topLeftWord ''b'' 10 15), toOutWord (topLeftWord ''a'' 20 0),
        toOutWord (topLeftWord ''a'' 20 0)]),
      (2, ''c'', 1, [toOutWord (topLeftWord ''c'' 0 30)])] \<and>
   map wordCount
     (organizeTextByLines
        (Some [topLeftWord ''a'' 20 0, topLeftWord ''b'' 10 15, topLeftWord ''a'' 20 0,
               topLeftWord ''c'' 0 30])) = [3, 1] \<and>
   filter (positionAt 20 0)
     [toOutWord (topLeftWord ''b'' 10 15), toOutWord (topLeftWord ''a'' 20 0),
      toOutWord (topLeftWord ''a'' 20 0), toOutWord (topLeftWord ''c'' 0 30)] =
     [toOutWord (topLeftWord ''a'' 20 0), toOutWord (topLeftWord ''a'' 20 0)]"
proof -
  let ?ws1 = "[topLeftWord ''c'' 0 30, topLeftWord ''a'' 20 0, topLeftWord ''b'' 10 15,
               topLeftWord ''a'' 20 0]"
  let ?ws2 = "[topLeftWord ''a'' 20 0, topLeftWord ''b'' 10 15, topLeftWord ''a'' 20 0,
               topLeftWord ''c'' 0 30]"
  have m: "mset ?ws1 = mset ?ws2" by (simp add: ac_simps)
  have t: "\<forall>a \<in> set ?ws1. \<forall>b \<in> set ?ws1.
             topX a = topX b \<and> topY a = topY b \<longrightarrow>
             ann_text a = ann_text b \<and> confidence a = confidence b"
    by simp
  note r = order_independent [OF m]
  have c: "map lineContents (organizeTextByLines (Some ?ws1)) =
           map lineContents (organizeTextByLines (Some ?ws2))"
    using r t by blast
  have n: "map wordCount (organizeTextByLines (Some ?ws1)) =
           map wordCount (organizeTextByLines (Some ?ws2))"
    using r by blast
  have f: "filter (positionAt 20 0) (concat (map out_words (organizeTextByLines (Some ?ws1)))) =
           map toOutWord (filter (cornerAt 20 0) ?ws1)"
    using r by blast
  have c': "map lineContents (organizeTextByLines (Some ?ws2)) =
     [(1, ''b a a'', 3,
       [toOutWord (topLeftWord ''b'' 10 15), toOutWord (topLeftWord ''a'' 20 0),
        toOutWord (topLeftWord ''a'' 20 0)]),
      (2, ''c'', 1, [toOutWord (topLeftWord ''c'' 0 30)])]"
    using c unfolding organize_tieWords by (simp add: lineContents_def)
  have n': "map wordCount (organizeTextByLines (Some ?ws2)) = [3, 1]"
    using n unfolding organize_tieWords by simp
  have f': "filter (positionAt 20 0)
     [toOutWord (topLeftWord ''b'' 10 15), toOutWord (topLeftWord ''a'' 20 0),
      toOutWord (topLeftWord ''a'' 20 0), toOutWord (topLeftWord ''c'' 0 30)] =
     [toOutWord (topLeftWord ''a'' 20 0), toOutWord (topLeftWord ''a'' 20 0)]"
    using f unfolding organize_tieWords by (simp add: cornerAt_def)
  show ?thesis using m c' n' f' by blast
qed

section \<open>Claims about detectText\<close>

text \<open>
  C5, as stated, fails for the line list: the result for an image without text has no
  \<open>lines\<close> key at all, so its line list is absent, not empty.
\<close>

theorem no_text_lines_counterexample:
  "lines (detectText \<lparr> GOOGLE_CLOUD_API_KEY = Some ''k'', GOOGLE_APPLICATION_CREDENTIALS = None \<rparr>
            (Inr \<lparr> textAnnotations = Some [] \<rparr>) ''t'') = None \<and>
   lines (detectText \<lparr> GOOGLE_CLOUD_API_KEY = Some ''k'', GOOGLE_APPLICATION_CREDENTIALS = None \<rparr>
            (Inr \<lparr> textAnnotations = Some [] \<rparr>) ''t'') \<noteq> Some []"
  by (simp add: detectText_def unset_def noTextResult_def)

text \<open>
  C5, amended. With credentials configured, when the vision client resolves with no
  token annotations (missing or empty), \<open>detectText\<close> returns normally: \<open>success\<close> is
  false, the text is empty, \<open>details\<close> is the empty list, there is no \<open>error\<close>, and the
  keys \<open>lines\<close>, \<open>wordCount\<close> and \<open>metadata\<close> are absent.
\<close>

theorem no_text_result:
  assumes "\<not> (unset (GOOGLE_CLOUD_API_KEY env) \<and> unset (GOOGLE_APPLICATION_CREDENTIALS env))"
    and "textAnnotations r = None \<or> textAnnotations r = Some []"
  shows "detectText env (Inr r) now =
           \<lparr> success = False, message = notFoundMessage, result_text = [],
             result_wordCount = None, lines = None, details = [], metadata = None,
             error = None \<rparr>"
  using assms by (auto simp add: detectText_def noTextResult_def)

theorem no_text_result_witness:
  "\<not> (unset (Some ''k'') \<and> unset None) \<and>
   detectText \<lparr> GOOGLE_CLOUD_API_KEY = Some ''k'', GOOGLE_APPLICATION_CREDENTIALS = None \<rparr>
     (Inr \<lparr> textAnnotations = Some [] \<rparr>) ''t'' =
     \<lparr> success = False, message = notFoundMessage, result_text = [],
       result_wordCount = None, lines = None, details = [], metadata = None, error = None \<rparr>"
  using no_text_result [of "\<lparr> GOOGLE_CLOUD_API_KEY = Some ''k'', GOOGLE_APPLICATION_CREDENTIALS = None \<rparr>"
      "\<lparr> textAnnotations = Some [] \<rparr>" "''t''"]
  by (simp add: unset_def)

section \<open>The argument of organizeTextByLines\<close>

text \<open>
  C10. \<open>organizeTextByLines\<close> does not modify its argument. On the store, for an array
  \<open>a\<close> that exists when the function is called: after the call the array \<open>a\<close> has the
  same elements in the same order, so has every other array that existed before, and
  no word object has changed; the sort works on a copy, and the lines keep their words
  in arrays of their own. The lines returned are those of the function on values.
  Consequently \<open>detectText\<close>, which hands its array \<open>textDetails\<close> to the function and
  returns the same array as \<open>details\<close>, returns the annotations in the order in which
  the provider gave them.
\<close>

theorem argument_unchanged:
  assumes "a < nextArray st"
    and "\<not> (unset (GOOGLE_CLOUD_API_KEY env) \<and> unset (GOOGLE_APPLICATION_CREDENTIALS env))"
    and "detections \<noteq> []"
  shows "arrayAt (fst (organizeTextByLinesStore st (Some a))) a = arrayAt st a \<and>
         wordAt (fst (organizeTextByLinesStore st (Some a))) = wordAt st \<and>
         (\<forall>b < nextArray st. arrayAt (fst (organizeTextByLinesStore st (Some a))) b = arrayAt st b) \<and>
         snd (organizeTextByLinesStore st (Some a)) =
           organizeTextByLines (Some (map (wordAt st) (arrayAt st a))) \<and>
         organizeTextByLinesStore st None = (st, []) \<and>
         detectTextStore st env response now = detectText env response now \<and>
         details (detectTextStore st env (Inr \<lparr> textAnnotations = Some detections \<rparr>) now) =
           map toTextDetail (drop 1 detections)"
proof -
  note run = organizeStore_run [OF assms(1)]
  have "details (detectText env (Inr \<lparr> textAnnotations = Some detections \<rparr>) now) =
        map toTextDetail (drop 1 detections)"
    using assms(2,3) by (auto simp add: detectText_def Let_def)
  then have d: "details (detectTextStore st env (Inr \<lparr> textAnnotations = Some detections \<rparr>) now) =
        map toTextDetail (drop 1 detections)"
    by (simp only: detectTextStore_detectText)
  have n: "organizeTextByLinesStore st None = (st, [])"
    by (simp add: organizeTextByLinesStore_def)
  have a: "arrayAt (fst (organizeTextByLinesStore st (Some a))) a = arrayAt st a"
    using run assms(1) by blast
  show ?thesis using run a n d detectTextStore_detectText by blast
qed

theorem argument_unchanged_witness:
  "(0::nat) < nextArray exampleStore \<and>
   \<not> (unset (Some ''k'') \<and> unset None) \<and>
   arrayAt (fst (organizeTextByLinesStore exampleStore (Some 0))) 0 = [0, 1] \<and>
   map out_text (snd (organizeTextByLinesStore exampleStore (Some 0))) = [''b a''] \<and>
   map ann_text
     (details (detectTextStore exampleStore
        \<lparr> GOOGLE_CLOUD_API_KEY = Some ''k'', GOOGLE_APPLICATION_CREDENTIALS = None \<rparr>
        (Inr \<lparr> textAnnotations = Some
           [\<lparr> description = ''b a'', score = None, boundingPoly = None \<rparr>,
            \<lparr> description = ''b'', score = None, boundingPoly = None \<rparr>,
            \<lparr> description = ''a'', score = None, boundingPoly = None \<rparr>] \<rparr>) ''t'')) =
     [''b'', ''a'']"
proof -
  have h1: "(0::nat) < nextArray exampleStore" by (simp add: exampleStore_def)
  have h2: "\<not> (unset (GOOGLE_CLOUD_API_KEY \<lparr> GOOGLE_CLOUD_API_KEY = Some ''k'', GOOGLE_APPLICATION_CREDENTIALS = None \<rparr>) \<and>
                unset (GOOGLE_APPLICATION_CREDENTIALS \<lparr> GOOGLE_CLOUD_API_KEY = Some ''k'', GOOGLE_APPLICATION_CREDENTIALS = None \<rparr>))"
    by (simp add: unset_def)
  have h3: "[\<lparr> description = ''b a'', score = None, boundingPoly = None \<rparr>,
            \<lparr> description = ''b'', score = None, boundingPoly = None \<rparr>,
            \<lparr> description = ''a'', score = None, boundingPoly = None \<rparr>] \<noteq> []" by simp
  have w: "map (wordAt exampleStore) (arrayAt exampleStore 0) =
           [topLeftWord ''b'' 10 15, topLeftWord ''a'' 20 0]"
    by (simp add: exampleStore_def)
  have a: "arrayAt exampleStore 0 = [0, 1]" by (simp add: exampleStore_def)
  note t = argument_unchanged [OF h1 h2 h3, of "Inr \<lparr> textAnnotations = None \<rparr>" "''t''"]
  have t1: "arrayAt (fst (organizeTextByLinesStore exampleStore (Some 0))) 0 = [0, 1]"
    using t a by simp
  have "snd (organizeTextByLinesStore exampleStore (Some 0)) =
        organizeTextByLines (Some (map (wordAt exampleStore) (arrayAt exampleStore 0)))"
    using t by blast
  then have t2: "map out_text (snd (organizeTextByLinesStore exampleStore (Some 0))) = [''b a'']"
    unfolding w organize_exampleStore by simp
  have t3: "map ann_text
     (details (detectTextStore exampleStore
        \<lparr> GOOGLE_CLOUD_API_KEY = Some ''k'', GOOGLE_APPLICATION_CREDENTIALS = None \<rparr>
        (Inr \<lparr> textAnnotations = Some
           [\<lparr> description = ''b a'', score = None, boundingPoly = None \<rparr>,
            \<lparr> description = ''b'', score = None, boundingPoly = None \<rparr>,
            \<lparr> description = ''a'', score = None, boundingPoly = None \<rparr>] \<rparr>) ''t'')) =
     [''b'', ''a'']"
    using t by (simp add: toTextDetail_def)
  show ?thesis using h1 t1 t2 t3 by (simp add: unset_def)
qed

end
